theory Spec2Isabelle
  imports Main "HOL-Library.AList" "HOL-Library.Sublist"
begin

section \<open>Sockets\<close>

text \<open>
  A socket is a mutable object of the host runtime; it is referred to by its identity
  (\<open>indexOf\<close> compares by identity), so a connection handle is an address into a heap of
  socket objects. Of a socket the module reads \<open>remoteAddress\<close>, \<open>remotePort\<close>, \<open>closed\<close>,
  \<open>destroyed\<close> and \<open>_parent\<close>. A missing \<open>closed\<close> or \<open>destroyed\<close> property is falsy and is
  modelled as \<open>False\<close>; a missing \<open>_parent\<close> is \<open>None\<close>.
\<close>

type_synonym handle = nat
type_synonym key = string

record sock =
  remoteAddress :: "string option"
  remotePort :: "nat option"
  closed :: bool
  destroyed :: bool
  parent :: "handle option"

type_synonym heap = "handle \<Rightarrow> sock"

text \<open>The decimal rendering of a port number, as string concatenation produces it.\<close>

fun decimal :: "nat \<Rightarrow> string" where
  "decimal n =
     (if n < 10 then [''0123456789'' ! n]
      else decimal (n div 10) @ [''0123456789'' ! (n mod 10)])"

declare decimal.simps [simp del]

text \<open>\<open>conn.remoteAddress + ':' + conn.remotePort\<close>; an undefined operand prints as
  \<open>undefined\<close>.\<close>

definition conn_key :: "sock \<Rightarrow> key" where
  "conn_key c =
     (case remoteAddress c of None \<Rightarrow> ''undefined'' | Some a \<Rightarrow> a) @ '':'' @
     (case remotePort c of None \<Rightarrow> ''undefined'' | Some p \<Rightarrow> decimal p)"

section \<open>The connection registry\<close>

text \<open>
  \<open>connectionDict\<close> is an object used as a dictionary from keys to arrays of sockets.
  Its keys always contain a colon, so they are enumerated in insertion order: the
  dictionary is an association list in that order.
\<close>

type_synonym registry = "(key \<times> handle list) list"

definition addConnection :: "key \<Rightarrow> handle \<Rightarrow> registry \<Rightarrow> registry" where
  "addConnection k conn d =
     (case map_of d k of
        Some conns \<Rightarrow> AList.update k (conns @ [conn]) d
      | None \<Rightarrow> AList.update k [conn] d)"

text \<open>\<open>Array.prototype.indexOf\<close>: the first index holding the element, or \<open>-1\<close>.\<close>

fun indexOf :: "'a list \<Rightarrow> 'a \<Rightarrow> int" where
  "indexOf [] x = - 1"
| "indexOf (y # ys) x =
     (if y = x then 0
      else (let i = indexOf ys x in if i = - 1 then - 1 else i + 1))"

text \<open>\<open>conns.splice(index, 1)\<close>: a negative start counts from the end, and the start is
  clamped to the array.\<close>

definition splice1 :: "int \<Rightarrow> 'a list \<Rightarrow> 'a list" where
  "splice1 i xs =
     (let n = int (length xs);
          start = (if i < 0 then max (n + i) 0 else min i n)
      in take (nat start) xs @ drop (nat start + 1) xs)"

definition removeConnection :: "key \<Rightarrow> handle \<Rightarrow> registry \<Rightarrow> registry" where
  "removeConnection k conn d =
     (case map_of d k of
        None \<Rightarrow> d
      | Some conns \<Rightarrow>
          (let index = indexOf conns conn in
           if length conns = 1 \<and> index = 0 then AList.delete k d
           else if index \<noteq> - 1 then AList.update k (splice1 index conns) d
           else d))"

section \<open>Closed-state detection\<close>

text \<open>
  The \<open>do ... while\<close> loop of \<open>checkDestroyed\<close> leaves only through one of its two
  \<open>return\<close>s (after \<open>conn = conn._parent\<close> the loop condition is truthy), so on a cyclic
  parent chain without a destroyed socket it runs forever: that is the value \<open>None\<close>.
\<close>

partial_function (option) checkDestroyed :: "heap \<Rightarrow> handle \<Rightarrow> bool option" where
  "checkDestroyed s conn =
     (if destroyed (s conn) then Some True
      else case parent (s conn) of
             None \<Rightarrow> Some False
           | Some p \<Rightarrow> checkDestroyed s p)"

text \<open>\<open>on_chain s h g\<close>: \<open>g\<close> is reached from \<open>h\<close> by following \<open>_parent\<close> zero or more
  times.\<close>

inductive on_chain :: "heap \<Rightarrow> handle \<Rightarrow> handle \<Rightarrow> bool" for s :: heap where
  here: "on_chain s h h"
| up: "parent (s h) = Some p \<Longrightarrow> on_chain s p g \<Longrightarrow> on_chain s h g"

code_pred on_chain .

text \<open>\<open>chain_ends s h\<close>: the parent chain of \<open>h\<close> is finite and acyclic, that is, it reaches
  a socket without parent.\<close>

inductive chain_ends :: "heap \<Rightarrow> handle \<Rightarrow> bool" for s :: heap where
  root: "parent (s h) = None \<Longrightarrow> chain_ends s h"
| link: "parent (s h) = Some p \<Longrightarrow> chain_ends s p \<Longrightarrow> chain_ends s h"

code_pred chain_ends .

section \<open>The promise returned by \<open>destroy\<close>\<close>

text \<open>
  An error value is identified by a number. The returned promise settles once: \<open>resolve\<close>
  and \<open>reject\<close> on a settled promise do nothing.
\<close>

type_synonym error = nat

datatype outcome = Pending | Resolved | Rejected error

text \<open>
  Where \<open>Promise.all(closePromises).then(...)\<close> stands: its callback has not run yet
  (\<open>Waiting\<close>), it has run and the \<open>setImmediate\<close> callback is queued (\<open>Queued\<close>), or that
  callback has run (\<open>Fired\<close>).
\<close>

datatype stage = Waiting | Queued | Fired

text \<open>
  One invocation of \<open>destroy\<close>: the outer promise, the per-connection promises (each with
  its socket and whether it is resolved; one that is not resolved has a \<open>close\<close> listener
  on its socket), and the stage of the final deferral.
\<close>

record call =
  promise :: outcome
  closePromises :: "(handle \<times> bool) list"
  stage :: stage

definition resolve_promise :: "call \<Rightarrow> call" where
  "resolve_promise c = (if promise c = Pending then c\<lparr>promise := Resolved\<rparr> else c)"

definition reject_promise :: "error \<Rightarrow> call \<Rightarrow> call" where
  "reject_promise e c = (if promise c = Pending then c\<lparr>promise := Rejected e\<rparr> else c)"

section \<open>The wrapped server\<close>

text \<open>
  The state that \<open>makeDestroyable\<close> closes over: the sockets of the host, the registry,
  the \<open>close\<close> listeners attached by the connection handlers (each with the socket it is
  attached to and the key it captured), and the invocations of \<open>destroy\<close> so far.
\<close>

record world =
  socks :: heap
  connectionDict :: registry
  closeHandlers :: "(handle \<times> key) list"
  calls :: "call list"

definition makeDestroyable :: "heap \<Rightarrow> world" where
  "makeDestroyable s = \<lparr>socks = s, connectionDict = [], closeHandlers = [], calls = []\<rparr>"

text \<open>The handler of \<open>connection\<close> and of \<open>secureConnection\<close> (the two are the same).\<close>

definition on_connection :: "handle \<Rightarrow> world \<Rightarrow> world" where
  "on_connection conn w =
     (let k = conn_key (socks w conn) in
      w\<lparr>connectionDict := addConnection k conn (connectionDict w),
        closeHandlers := closeHandlers w @ [(conn, k)]\<rparr>)"

text \<open>A socket emits \<open>close\<close>: the listeners attached to it run in the order they were
  attached, each calling \<open>removeConnection\<close> with its captured key.\<close>

fun emit_close :: "handle \<Rightarrow> (handle \<times> key) list \<Rightarrow> registry \<Rightarrow> registry" where
  "emit_close conn [] d = d"
| "emit_close conn ((c, k) # hs) d =
     emit_close conn hs (if c = conn then removeConnection k conn d else d)"

definition on_close :: "handle \<Rightarrow> world \<Rightarrow> world" where
  "on_close conn w = w\<lparr>connectionDict := emit_close conn (closeHandlers w) (connectionDict w)\<rparr>"

subsection \<open>\<open>destroy\<close>\<close>

text \<open>
  \<open>conn.destroy()\<close> belongs to the host. What it does to the sockets at once is a
  parameter, \<open>kill\<close>; it does not throw, and the \<open>close\<close> event it causes is emitted in a
  later turn of the event loop, as the streams of the runtime do (so no listener runs,
  and no array of the registry changes, while the loops of \<open>destroy\<close> run).
  \<open>node_destroy\<close> is the behaviour of a stream of the runtime: the socket is marked
  destroyed at once, as the test suite expects right after \<open>server.destroy()\<close>.
  Likewise \<open>server.close\<close> returns without calling its callback; the callback is an
  event of its own.
\<close>

type_synonym terminate = "handle \<Rightarrow> heap \<Rightarrow> heap"

definition node_destroy :: terminate where
  "node_destroy conn s = s(conn := (s conn)\<lparr>destroyed := True\<rparr>)"

text \<open>The test \<open>conn.closed || checkDestroyed(conn)\<close>.\<close>

definition already_closed :: "heap \<Rightarrow> handle \<Rightarrow> bool option" where
  "already_closed s conn = (if closed (s conn) then Some True else checkDestroyed s conn)"

text \<open>The state of the two loops: the sockets, \<open>closePromises\<close>, and the sockets on which
  \<open>destroy\<close> was invoked so far, in order.\<close>

record sweep =
  heap_of :: heap
  waits :: "(handle \<times> bool) list"
  terminated :: "handle list"

text \<open>The inner loop, given the sockets in the order it visits them: a promise is pushed,
  resolved at once when the socket already counts as closed and waiting for its \<open>close\<close>
  event otherwise, and then the socket is destroyed.\<close>

fun destroy_conns :: "terminate \<Rightarrow> handle list \<Rightarrow> sweep \<Rightarrow> sweep option" where
  "destroy_conns kill [] st = Some st"
| "destroy_conns kill (conn # rest) st =
     (case already_closed (heap_of st) conn of
        None \<Rightarrow> None
      | Some b \<Rightarrow>
          destroy_conns kill rest
            \<lparr>heap_of = kill conn (heap_of st),
             waits = waits st @ [(conn, b)],
             terminated = terminated st @ [conn]\<rparr>)"

text \<open>The outer loop over the keys; the inner loop counts the index down from the last
  element, so it visits the array reversed.\<close>

fun destroy_keys :: "terminate \<Rightarrow> registry \<Rightarrow> sweep \<Rightarrow> sweep option" where
  "destroy_keys kill [] st = Some st"
| "destroy_keys kill ((k, connections) # d) st =
     (case destroy_conns kill (rev connections) st of
        None \<Rightarrow> None
      | Some st' \<Rightarrow> destroy_keys kill d st')"

text \<open>\<open>destroy\<close> returns the new state and the sockets it destroyed, in order; \<open>None\<close> when
  a parent walk does not return.\<close>

definition destroy :: "terminate \<Rightarrow> world \<Rightarrow> (world \<times> handle list) option" where
  "destroy kill w =
     (case destroy_keys kill (connectionDict w)
             \<lparr>heap_of = socks w, waits = [], terminated = []\<rparr> of
        None \<Rightarrow> None
      | Some st \<Rightarrow>
          Some (w\<lparr>socks := heap_of st,
                  calls := calls w @
                    [\<lparr>promise = Pending, closePromises = waits st, stage = Waiting\<rparr>]\<rparr>,
                terminated st))"

subsection \<open>Events\<close>

text \<open>
  Everything runs as a reaction to an event of the host, on one thread: the server emits
  \<open>connection\<close> or \<open>secureConnection\<close>, a socket emits \<open>close\<close>, somebody calls \<open>destroy\<close>,
  the callback given to \<open>server.close\<close> by the \<open>n\<close>-th invocation of \<open>destroy\<close> is called
  (with an error or without), the event loop runs the \<open>setImmediate\<close> callback of the
  \<open>n\<close>-th invocation, or the host changes the properties of a socket.
\<close>

datatype event =
    Connection handle
  | SecureConnection handle
  | SockClose handle
  | Destroy
  | ServerClosed nat "error option"
  | Immediate nat
  | Host handle sock

text \<open>The callback of \<open>Promise.all(...).then\<close> runs as a microtask once every promise of
  \<open>closePromises\<close> is resolved, and queues the \<open>setImmediate\<close> callback.\<close>

definition settle :: "call \<Rightarrow> call" where
  "settle c =
     (if stage c = Waiting \<and> list_all snd (closePromises c) then c\<lparr>stage := Queued\<rparr> else c)"

text \<open>What an event does to invocation number \<open>n\<close> of \<open>destroy\<close>.\<close>

fun call_event :: "nat \<Rightarrow> event \<Rightarrow> call \<Rightarrow> call" where
  "call_event n (SockClose conn) c =
     c\<lparr>closePromises := map (\<lambda>(h, b). (h, b \<or> h = conn)) (closePromises c)\<rparr>"
| "call_event n (ServerClosed m err) c =
     (if m = n then (case err of None \<Rightarrow> c | Some e \<Rightarrow> reject_promise e c) else c)"
| "call_event n (Immediate m) c =
     (if m = n \<and> stage c = Queued then resolve_promise (c\<lparr>stage := Fired\<rparr>) else c)"
| "call_event n (Connection conn) c = c"
| "call_event n (SecureConnection conn) c = c"
| "call_event n Destroy c = c"
| "call_event n (Host h v) c = c"

text \<open>Every turn of the event loop ends with the microtasks.\<close>

definition turn :: "event \<Rightarrow> call list \<Rightarrow> call list" where
  "turn e cs = map (\<lambda>(n, c). settle (call_event n e c)) (enumerate 0 cs)"

fun react :: "terminate \<Rightarrow> event \<Rightarrow> world \<Rightarrow> world option" where
  "react kill (Connection conn) w = Some (on_connection conn w)"
| "react kill (SecureConnection conn) w = Some (on_connection conn w)"
| "react kill (SockClose conn) w = Some (on_close conn w)"
| "react kill Destroy w = map_option fst (destroy kill w)"
| "react kill (ServerClosed m err) w = Some w"
| "react kill (Immediate m) w = Some w"
| "react kill (Host h v) w = Some (w\<lparr>socks := (socks w)(h := v)\<rparr>)"

definition step :: "terminate \<Rightarrow> event \<Rightarrow> world \<Rightarrow> world option" where
  "step kill e w =
     (case react kill e w of
        None \<Rightarrow> None
      | Some w' \<Rightarrow> Some (w'\<lparr>calls := turn e (calls w')\<rparr>))"

fun run :: "terminate \<Rightarrow> event list \<Rightarrow> world \<Rightarrow> world option" where
  "run kill [] w = Some w"
| "run kill (e # es) w = (case step kill e w of None \<Rightarrow> None | Some w' \<Rightarrow> run kill es w')"

text \<open>The sockets in the registry.\<close>

definition tracked :: "registry \<Rightarrow> handle list" where
  "tracked d = concat (map snd d)"

section \<open>The historical variant with one socket per key\<close>












section \<open>Registry operations as a sequence\<close>

datatype reg_op = Register key handle | Unregister key handle

fun apply_op :: "registry \<Rightarrow> reg_op \<Rightarrow> registry" where
  "apply_op d (Register k conn) = addConnection k conn d"
| "apply_op d (Unregister k conn) = removeConnection k conn d"

fun registered :: "reg_op list \<Rightarrow> handle list" where
  "registered [] = []"
| "registered (Register k conn # ops) = conn # registered ops"
| "registered (Unregister k conn # ops) = registered ops"

section \<open>Example sockets\<close>

text \<open>The streams of the test suite: address \<open>1.2.3.4\<close>, port \<open>1234\<close>, open, no parent.\<close>

definition stream_sock :: sock where
  "stream_sock =
     \<lparr>remoteAddress = Some ''1.2.3.4'', remotePort = Some 1234,
      closed = False, destroyed = False, parent = None\<rparr>"

definition streams :: heap where
  "streams = (\<lambda>h. stream_sock)"

text \<open>A heap in which socket \<open>2\<close> wraps socket \<open>1\<close>, as a secure socket wraps a raw one.\<close>

definition layered :: heap where
  "layered = streams(2 := stream_sock\<lparr>parent := Some 1\<rparr>)"

text \<open>A heap with a cycle: sockets \<open>1\<close> and \<open>2\<close> are each other's parent, neither
  destroyed.\<close>

definition looped :: heap where
  "looped =
     streams(1 := stream_sock\<lparr>parent := Some 2\<rparr>, 2 := stream_sock\<lparr>parent := Some 1\<rparr>)"

section \<open>Invariants and notions of the specification\<close>

text \<open>The array of a key; a key that is absent has no sockets.\<close>

definition conns_of :: "registry \<Rightarrow> key \<Rightarrow> handle list" where
  "conns_of d k = (case map_of d k of None \<Rightarrow> [] | Some cs \<Rightarrow> cs)"

text \<open>The invariant of the registry: the keys are those of an object (each once), no
  key holds an empty array, and no socket occurs twice.\<close>

definition no_empty :: "registry \<Rightarrow> bool" where
  "no_empty d \<longleftrightarrow> [] \<notin> snd ` set d"

definition registry_ok :: "registry \<Rightarrow> bool" where
  "registry_ok d \<longleftrightarrow> distinct (map fst d) \<and> no_empty d \<and> distinct (tracked d)"

text \<open>The sockets registered under one key by a sequence of operations, in order.\<close>

fun registered_under :: "key \<Rightarrow> reg_op list \<Rightarrow> handle list" where
  "registered_under k [] = []"
| "registered_under k (Register k' conn # ops) =
     (if k' = k then conn # registered_under k ops else registered_under k ops)"
| "registered_under k (Unregister k' conn # ops) = registered_under k ops"

text \<open>The order in which the two loops of \<open>destroy\<close> visit the sockets: key after key,
  each array from its last element to its first.\<close>

definition sweep_order :: "registry \<Rightarrow> handle list" where
  "sweep_order d = concat (map (rev \<circ> snd) d)"

text \<open>How often a socket occurs in the array of a key.\<close>

definition occ :: "registry \<Rightarrow> key \<Rightarrow> handle \<Rightarrow> nat" where
  "occ d k g = count_list (conns_of d k) g"

text \<open>Every parent chain of the heap is finite and acyclic, and \<open>conn.destroy()\<close> keeps
  it so.\<close>

definition finite_chains :: "heap \<Rightarrow> bool" where
  "finite_chains s \<longleftrightarrow> (\<forall>h. chain_ends s h)"

definition keeps_chains :: "terminate \<Rightarrow> bool" where
  "keeps_chains kill \<longleftrightarrow> (\<forall>c s. finite_chains s \<longrightarrow> finite_chains (kill c s))"

text \<open>A socket reports closed: its own \<open>closed\<close> property is set, or a socket on its
  parent chain is destroyed. \<open>keeps_closed\<close>: destroying a socket never makes \<open>h\<close> stop
  reporting closed.\<close>

definition reports_closed :: "heap \<Rightarrow> handle \<Rightarrow> bool" where
  "reports_closed s h \<longleftrightarrow> closed (s h) \<or> (\<exists>g. on_chain s h g \<and> destroyed (s g))"

definition keeps_closed :: "terminate \<Rightarrow> handle \<Rightarrow> bool" where
  "keeps_closed kill h \<longleftrightarrow> (\<forall>c s. reports_closed s h \<longrightarrow> reports_closed (kill c s) h)"

text \<open>What \<open>closePromises\<close> has to be when \<open>destroy\<close> visits the sockets \<open>cs\<close> starting
  from the heap \<open>s\<close>: the promise of the \<open>i\<close>-th socket is resolved at once exactly when
  that socket reports closed in the heap of that moment, in which the sockets visited
  before it have been destroyed.\<close>

definition armed :: "terminate \<Rightarrow> heap \<Rightarrow> handle list \<Rightarrow> (handle \<times> bool) list" where
  "armed kill s cs =
     map (\<lambda>i. (cs ! i, reports_closed (fold kill (take i cs) s) (cs ! i))) [0..<length cs]"

text \<open>One invocation of \<open>destroy\<close> followed through a sequence of events.\<close>

fun call_run :: "nat \<Rightarrow> event list \<Rightarrow> call \<Rightarrow> call" where
  "call_run n [] c = c"
| "call_run n (e # es) c = call_run n es (settle (call_event n e c))"

text \<open>What holds of an invocation at the end of every turn: the deferral is queued
  only when every connection promise is resolved, and exactly then; the promise is
  resolved only when the deferred callback has run.\<close>

definition call_ok :: "call \<Rightarrow> bool" where
  "call_ok c \<longleftrightarrow>
     (stage c \<noteq> Waiting \<longrightarrow> list_all snd (closePromises c)) \<and>
     (promise c = Resolved \<longrightarrow> stage c = Fired)"

definition settled :: "call \<Rightarrow> bool" where
  "settled c \<longleftrightarrow> (stage c = Waiting \<longrightarrow> \<not> list_all snd (closePromises c))"

text \<open>The state of the promise of invocation \<open>n\<close> after a sequence of events, and whether
  the callback given to \<open>server.close\<close> by invocation \<open>n\<close> is called in the sequence.\<close>

definition promise_after :: "terminate \<Rightarrow> event list \<Rightarrow> world \<Rightarrow> nat \<Rightarrow> outcome option" where
  "promise_after kill evs w n = map_option (\<lambda>w'. promise (calls w' ! n)) (run kill evs w)"

fun is_server_closed :: "nat \<Rightarrow> event \<Rightarrow> bool" where
  "is_server_closed n (ServerClosed m err) = (m = n)"
| "is_server_closed n e = False"

definition callback_fired :: "nat \<Rightarrow> event list \<Rightarrow> bool" where
  "callback_fired n evs = list_ex (is_server_closed n) evs"

text \<open>Every connection event of the sequence is followed, later in the sequence, by
  the \<open>close\<close> event of its socket.\<close>

fun closes_all :: "event list \<Rightarrow> bool" where
  "closes_all [] = True"
| "closes_all (Connection conn # es) = (SockClose conn \<in> set es \<and> closes_all es)"
| "closes_all (SecureConnection conn # es) = (SockClose conn \<in> set es \<and> closes_all es)"
| "closes_all (e # es) = closes_all es"

text \<open>Every occurrence of a socket in the registry has a \<open>close\<close> listener that will
  remove it.\<close>

definition handlers_cover :: "world \<Rightarrow> bool" where
  "handlers_cover w \<longleftrightarrow>
     no_empty (connectionDict w) \<and>
     (\<forall>k g. occ (connectionDict w) k g \<le> count_list (closeHandlers w) (g, k))"



section \<open>Example servers\<close>

text \<open>Socket \<open>2\<close> wraps socket \<open>1\<close>, and socket \<open>1\<close> is destroyed while socket \<open>2\<close> does not
  say so: the case the parent walk is there for.\<close>

definition half_closed :: heap where
  "half_closed = layered(1 := stream_sock\<lparr>destroyed := True\<rparr>)"


text \<open>The server of the test suite after its two streams were emitted as connections,
  and a server with one connection before \<open>destroy\<close>, after \<open>destroy\<close>, and after the
  connection closed and the deferred callback ran.\<close>

definition two_streams :: world where
  "two_streams = on_connection 2 (on_connection 1 (makeDestroyable streams))"

text \<open>A server on which socket \<open>1\<close> was emitted as a connection, then socket \<open>2\<close>, then
  socket \<open>1\<close> once more.\<close>

definition twice_accepted :: world where
  "twice_accepted = on_connection 1 (on_connection 2 (on_connection 1 (makeDestroyable streams)))"

definition one_open :: world where
  "one_open = on_connection 1 (makeDestroyable streams)"

definition one_closing :: world where
  "one_closing = the (step node_destroy Destroy one_open)"

definition one_closed :: world where
  "one_closed = the (run node_destroy [SockClose 1, Immediate 0] one_closing)"

definition wrapped_open :: world where
  "wrapped_open = on_connection 2 (makeDestroyable half_closed)"

definition wrapped_closing :: world where
  "wrapped_closing = the (step node_destroy Destroy wrapped_open)"

lemmas world_defs =
  step_def destroy_def makeDestroyable_def turn_def settle_def resolve_promise_def
  reject_promise_def on_connection_def on_close_def addConnection_def removeConnection_def
  already_closed_def checkDestroyed.simps streams_def stream_sock_def node_destroy_def
  conn_key_def decimal.simps splice1_def Let_def

section \<open>Array search\<close>

lemma indexOf_lower: "- 1 \<le> indexOf xs x"
  by (induction xs) (auto simp: Let_def)

lemma indexOf_absent: "indexOf xs x = - 1 \<longleftrightarrow> x \<notin> set xs"
proof (induction xs)
  case Nil
  then show ?case by simp
next
  case (Cons y ys)
  have "indexOf ys x + 1 \<noteq> - 1" using indexOf_lower [of ys x] by arith
  with Cons show ?case by (simp add: Let_def)
qed

lemma indexOf_present:
  "x \<in> set xs \<Longrightarrow>
     0 \<le> indexOf xs x \<and> nat (indexOf xs x) < length xs \<and> xs ! nat (indexOf xs x) = x"
proof (induction xs)
  case Nil
  then show ?case by simp
next
  case (Cons y ys)
  show ?case
  proof (cases "y = x")
    case True
    then show ?thesis by simp
  next
    case False
    with Cons.prems have in_tl: "x \<in> set ys" by simp
    from Cons.IH [OF in_tl] have ih: "0 \<le> indexOf ys x" "nat (indexOf ys x) < length ys"
      "ys ! nat (indexOf ys x) = x" by simp_all
    from ih(1) have ne: "indexOf ys x \<noteq> - 1" by simp
    from ih(1) have nat_suc: "nat (indexOf ys x + 1) = Suc (nat (indexOf ys x))" by simp
    show ?thesis using False ne ih nat_suc by (simp add: Let_def)
  qed
qed

lemma splice1_at:
  assumes "0 \<le> i" and "nat i < length xs"
  shows "splice1 i xs = take (nat i) xs @ drop (Suc (nat i)) xs"
proof -
  from assms have "i \<le> int (length xs)" by linarith
  with assms(1) show ?thesis by (simp add: splice1_def Let_def min_def)
qed

lemma splice1_indexOf:
  assumes "x \<in> set xs"
  shows "\<exists>pre post. xs = pre @ x # post \<and> splice1 (indexOf xs x) xs = pre @ post"
proof -
  let ?n = "nat (indexOf xs x)"
  from indexOf_present [OF assms]
  have idx: "0 \<le> indexOf xs x" "?n < length xs" "xs ! ?n = x" by simp_all
  have "xs = take ?n xs @ x # drop (Suc ?n) xs"
    using id_take_nth_drop [OF idx(2)] idx(3) by simp
  moreover have "splice1 (indexOf xs x) xs = take ?n xs @ drop (Suc ?n) xs"
    using splice1_at [OF idx(1,2)] .
  ultimately show ?thesis by blast
qed

lemma splice1_Cons:
  assumes "0 \<le> i"
  shows "splice1 (i + 1) (y # ys) = y # splice1 i ys"
proof (cases "i \<le> int (length ys)")
  case True
  with assms have "nat (i + 1) = Suc (nat i)" by simp
  with True assms show ?thesis by (simp add: splice1_def Let_def min_def)
next
  case False
  then have "nat (1 + int (length ys)) = Suc (length ys)" by simp
  with False assms show ?thesis by (simp add: splice1_def Let_def min_def)
qed

lemma splice1_remove1: "x \<in> set xs \<Longrightarrow> splice1 (indexOf xs x) xs = remove1 x xs"
proof (induction xs)
  case Nil
  then show ?case by simp
next
  case (Cons y ys)
  show ?case
  proof (cases "y = x")
    case True
    then show ?thesis by (simp add: splice1_def)
  next
    case False
    with Cons.prems have mem: "x \<in> set ys" by simp
    from indexOf_present [OF mem] have nn: "0 \<le> indexOf ys x" by simp
    then have "indexOf ys x \<noteq> - 1" by simp
    with False have "indexOf (y # ys) x = indexOf ys x + 1" by (simp add: Let_def)
    with splice1_Cons [OF nn, of y ys] Cons.IH [OF mem] False show ?thesis by simp
  qed
qed

section \<open>Registry operations\<close>

lemma removeConnection_absent:
  assumes "conn \<notin> set (conns_of d k)"
  shows "removeConnection k conn d = d"
proof (cases "map_of d k")
  case None
  then show ?thesis by (simp add: removeConnection_def)
next
  case (Some conns)
  with assms have "indexOf conns conn = - 1" by (simp add: indexOf_absent conns_of_def)
  with Some show ?thesis by (simp add: removeConnection_def)
qed

text \<open>
  Claim C5. \<open>removeConnection\<close> has no failing path, and when the socket is not in the
  array of the key (in particular when the key is absent) it returns the registry as it
  was.
\<close>

theorem unregister_absent_noop:
  "conn \<notin> set (conns_of d k) \<Longrightarrow> removeConnection k conn d = d"
  by (rule removeConnection_absent)

theorem unregister_absent_noop_witness:
  "(3::nat) \<notin> set (conns_of [(''1.2.3.4:1234'', [1, 2])] ''1.2.3.4:1234'') \<and>
   removeConnection ''1.2.3.4:1234'' 3 [(''1.2.3.4:1234'', [1, 2])] =
     [(''1.2.3.4:1234'', [1, 2])] \<and>
   (3::nat) \<notin> set (conns_of [(''1.2.3.4:1234'', [1, 2])] ''9.9.9.9:1'') \<and>
   removeConnection ''9.9.9.9:1'' 3 [(''1.2.3.4:1234'', [1, 2])] =
     [(''1.2.3.4:1234'', [1, 2])]"
  using unregister_absent_noop [of 3 "[(''1.2.3.4:1234'', [1, 2])]" "''1.2.3.4:1234''"]
    unregister_absent_noop [of 3 "[(''1.2.3.4:1234'', [1, 2])]" "''9.9.9.9:1''"]
  by (simp add: conns_of_def)

lemma conns_of_addConnection:
  "conns_of (addConnection k c d) k' = (if k' = k then conns_of d k @ [c] else conns_of d k')"
  by (auto simp: conns_of_def addConnection_def update_conv' split: option.splits)

lemma conns_of_removeConnection:
  "conns_of (removeConnection k c d) k' =
     (if k' = k then remove1 c (conns_of d k) else conns_of d k')"
proof (cases "map_of d k")
  case None
  then show ?thesis by (simp add: removeConnection_def conns_of_def)
next
  case (Some cs)
  show ?thesis
  proof (cases "c \<in> set cs")
    case False
    with Some have "removeConnection k c d = d" by (simp add: removeConnection_absent conns_of_def)
    with False Some show ?thesis by (simp add: conns_of_def remove1_idem)
  next
    case True
    from indexOf_present [OF True] have idx: "0 \<le> indexOf cs c" "cs ! nat (indexOf cs c) = c"
      by simp_all
    show ?thesis
    proof (cases "length cs = 1 \<and> indexOf cs c = 0")
      case single: True
      then have cs: "cs = [c]" using idx(2) by (cases cs) auto
      from single Some have "removeConnection k c d = AList.delete k d"
        by (simp add: removeConnection_def)
      with Some cs show ?thesis by (auto simp: conns_of_def delete_conv')
    next
      case False
      from idx(1) have "indexOf cs c \<noteq> - 1" by simp
      with False Some have "removeConnection k c d = AList.update k (remove1 c cs) d"
        using splice1_remove1 [OF True] by (auto simp: removeConnection_def Let_def)
      with Some show ?thesis by (auto simp: conns_of_def update_conv')
    qed
  qed
qed

lemma map_of_addConnection:
  "map_of (addConnection k conn d) k =
     Some ((case map_of d k of None \<Rightarrow> [] | Some cs \<Rightarrow> cs) @ [conn])"
  by (simp add: addConnection_def update_conv' split: option.splits)

subsection \<open>The sockets of the registry as one list\<close>

lemma tracked_update_absent:
  "map_of d k = None \<Longrightarrow> tracked (AList.update k cs d) = tracked d @ cs"
  by (induction d) (auto simp: tracked_def split: if_splits)

lemma tracked_update_present:
  "map_of d k = Some cs \<Longrightarrow>
     \<exists>pre post. tracked d = pre @ cs @ post \<and> tracked (AList.update k cs' d) = pre @ cs' @ post"
proof (induction d)
  case Nil
  then show ?case by simp
next
  case (Cons p d)
  obtain k' v where p: "p = (k', v)" by (cases p)
  show ?case
  proof (cases "k' = k")
    case True
    with Cons.prems p have "v = cs" by simp
    with True p have "tracked (p # d) = [] @ cs @ tracked d"
      "tracked (AList.update k cs' (p # d)) = [] @ cs' @ tracked d"
      by (simp_all add: tracked_def)
    then show ?thesis by blast
  next
    case False
    with Cons.prems p have "map_of d k = Some cs" by simp
    from Cons.IH [OF this] obtain pre post where
      ih: "tracked d = pre @ cs @ post" "tracked (AList.update k cs' d) = pre @ cs' @ post"
      by blast
    from False p ih have "tracked (p # d) = (v @ pre) @ cs @ post"
      "tracked (AList.update k cs' (p # d)) = (v @ pre) @ cs' @ post"
      by (simp_all add: tracked_def)
    then show ?thesis by blast
  qed
qed

lemma tracked_delete:
  "map_of d k = Some cs \<Longrightarrow> distinct (map fst d) \<Longrightarrow>
     \<exists>pre post. tracked d = pre @ cs @ post \<and> tracked (AList.delete k d) = pre @ post"
proof (induction d)
  case Nil
  then show ?case by simp
next
  case (Cons p d)
  obtain k' v where p: "p = (k', v)" by (cases p)
  show ?case
  proof (cases "k' = k")
    case True
    with Cons.prems p have v: "v = cs" and "k \<notin> fst ` set d" by auto
    then have "AList.delete k d = d" by simp
    with True p v have "tracked (p # d) = [] @ cs @ tracked d"
      "tracked (AList.delete k (p # d)) = [] @ tracked d"
      by (simp_all add: tracked_def AList.delete_eq)
    then show ?thesis by blast
  next
    case False
    with Cons.prems p have "map_of d k = Some cs" "distinct (map fst d)" by simp_all
    from Cons.IH [OF this] obtain pre post where
      ih: "tracked d = pre @ cs @ post" "tracked (AList.delete k d) = pre @ post"
      by blast
    from False p ih have "tracked (p # d) = (v @ pre) @ cs @ post"
      "tracked (AList.delete k (p # d)) = (v @ pre) @ post"
      by (simp_all add: tracked_def AList.delete_eq)
    then show ?thesis by blast
  qed
qed

lemma tracked_addConnection:
  "\<exists>pre post. tracked d = pre @ post \<and> tracked (addConnection k conn d) = pre @ conn # post"
proof (cases "map_of d k")
  case None
  then have "tracked (addConnection k conn d) = tracked d @ [conn]"
    by (simp add: addConnection_def tracked_update_absent)
  then have "tracked d = tracked d @ [] \<and> tracked (addConnection k conn d) = tracked d @ conn # []"
    by simp
  then show ?thesis by blast
next
  case (Some cs)
  from tracked_update_present [OF Some, of "cs @ [conn]"] obtain pre post where
    "tracked d = pre @ cs @ post" "tracked (AList.update k (cs @ [conn]) d) = pre @ (cs @ [conn]) @ post"
    by blast
  with Some have "tracked d = (pre @ cs) @ post \<and> tracked (addConnection k conn d) = (pre @ cs) @ conn # post"
    by (simp add: addConnection_def)
  then show ?thesis by blast
qed

lemma tracked_removeConnection:
  assumes dk: "distinct (map fst d)"
  shows "tracked (removeConnection k conn d) = tracked d \<or>
     (\<exists>pre post. tracked d = pre @ conn # post \<and> tracked (removeConnection k conn d) = pre @ post)"
proof (cases "map_of d k")
  case None
  then show ?thesis by (simp add: removeConnection_def)
next
  case (Some cs)
  show ?thesis
  proof (cases "conn \<in> set cs")
    case False
    with Some have "removeConnection k conn d = d" by (simp add: removeConnection_absent conns_of_def)
    then show ?thesis by simp
  next
    case True
    from indexOf_present [OF True] have idx: "0 \<le> indexOf cs conn" "nat (indexOf cs conn) < length cs"
      "cs ! nat (indexOf cs conn) = conn" by simp_all
    show ?thesis
    proof (cases "length cs = 1 \<and> indexOf cs conn = 0")
      case single: True
      then have cs: "cs = [conn]" using idx(3) by (cases cs) auto
      from single Some have r: "removeConnection k conn d = AList.delete k d"
        by (simp add: removeConnection_def)
      from tracked_delete [OF Some dk] obtain pre post where
        "tracked d = pre @ cs @ post" "tracked (AList.delete k d) = pre @ post" by blast
      with cs r have "tracked d = pre @ conn # post \<and> tracked (removeConnection k conn d) = pre @ post"
        by simp
      then show ?thesis by blast
    next
      case False
      from idx(1) have "indexOf cs conn \<noteq> - 1" by simp
      with False Some have r: "removeConnection k conn d = AList.update k (splice1 (indexOf cs conn) cs) d"
        by (auto simp: removeConnection_def Let_def)
      from splice1_indexOf [OF True] obtain a b where
        ab: "cs = a @ conn # b" "splice1 (indexOf cs conn) cs = a @ b" by blast
      from tracked_update_present [OF Some, of "splice1 (indexOf cs conn) cs"] obtain pre post where
        "tracked d = pre @ cs @ post"
        "tracked (AList.update k (splice1 (indexOf cs conn) cs) d) = pre @ splice1 (indexOf cs conn) cs @ post"
        by blast
      with ab r have "tracked d = (pre @ a) @ conn # (b @ post) \<and>
          tracked (removeConnection k conn d) = (pre @ a) @ (b @ post)"
        by simp
      then show ?thesis by blast
    qed
  qed
qed

subsection \<open>The invariant\<close>

lemma set_update_subset: "set (AList.update k v d) \<subseteq> insert (k, v) (set d)"
  by (induction d) auto

lemma no_empty_update: "no_empty d \<Longrightarrow> v \<noteq> [] \<Longrightarrow> no_empty (AList.update k v d)"
  using set_update_subset [of k v d] by (fastforce simp: no_empty_def)

lemma no_empty_delete: "no_empty d \<Longrightarrow> no_empty (AList.delete k d)"
  by (auto simp: no_empty_def AList.delete_eq)

lemma no_empty_addConnection: "no_empty d \<Longrightarrow> no_empty (addConnection k conn d)"
  by (auto simp: addConnection_def no_empty_update split: option.splits)

lemma no_empty_removeConnection: "no_empty d \<Longrightarrow> no_empty (removeConnection k conn d)"
proof (cases "map_of d k")
  case None
  assume "no_empty d"
  with None show ?thesis by (simp add: removeConnection_def)
next
  case (Some cs)
  assume ne: "no_empty d"
  show ?thesis
  proof (cases "conn \<in> set cs")
    case False
    with Some ne show ?thesis by (simp add: removeConnection_absent conns_of_def)
  next
    case True
    from splice1_indexOf [OF True] obtain a b where
      ab: "cs = a @ conn # b" "splice1 (indexOf cs conn) cs = a @ b" by blast
    have "length cs = 1 \<or> a @ b \<noteq> []" using ab(1) by (cases a) auto
    moreover have "indexOf cs conn = 0" if "length cs = 1"
      using that indexOf_present [OF True] by simp
    ultimately show ?thesis using Some ne ab(2)
      by (auto simp: removeConnection_def Let_def no_empty_delete no_empty_update)
  qed
qed

lemma distinct_keys_addConnection:
  "distinct (map fst d) \<Longrightarrow> distinct (map fst (addConnection k conn d))"
  by (simp add: addConnection_def distinct_update split: option.splits)

lemma distinct_keys_removeConnection:
  "distinct (map fst d) \<Longrightarrow> distinct (map fst (removeConnection k conn d))"
  by (simp add: removeConnection_def Let_def distinct_update distinct_delete split: option.splits)

lemma ops_invariant:
  "distinct (registered ops) \<Longrightarrow> registry_ok d \<Longrightarrow> set (tracked d) \<inter> set (registered ops) = {} \<Longrightarrow>
     registry_ok (foldl apply_op d ops)"
proof (induction ops arbitrary: d)
  case Nil
  then show ?case by simp
next
  case (Cons op ops)
  show ?case
  proof (cases op)
    case (Register k conn)
    from tracked_addConnection [of d k conn] obtain pre post where
      t: "tracked d = pre @ post" "tracked (addConnection k conn d) = pre @ conn # post" by blast
    from Cons.prems Register have fresh: "conn \<notin> set (tracked d)" "conn \<notin> set (registered ops)"
      "distinct (registered ops)" by auto
    have ok: "registry_ok (addConnection k conn d)"
      using Cons.prems(2) t fresh(1)
      by (auto simp: registry_ok_def distinct_keys_addConnection no_empty_addConnection)
    have disj: "set (tracked (addConnection k conn d)) \<inter> set (registered ops) = {}"
      using Cons.prems(3) t fresh(2) Register by auto
    from Cons.IH [OF fresh(3) ok disj] Register show ?thesis by simp
  next
    case (Unregister k conn)
    from Cons.prems(2) have dk: "distinct (map fst d)" by (simp add: registry_ok_def)
    from tracked_removeConnection [OF dk, of k conn]
    have sub: "set (tracked (removeConnection k conn d)) \<subseteq> set (tracked d)"
      and dist: "distinct (tracked d) \<longrightarrow> distinct (tracked (removeConnection k conn d))"
      by auto
    have ok: "registry_ok (removeConnection k conn d)"
      using Cons.prems(2) dist
      by (auto simp: registry_ok_def distinct_keys_removeConnection no_empty_removeConnection)
    have disj: "set (tracked (removeConnection k conn d)) \<inter> set (registered ops) = {}"
      using Cons.prems(3) sub Unregister by auto
    from Cons.prems(1) Unregister have "distinct (registered ops)" by simp
    from Cons.IH [OF this ok disj] Unregister show ?thesis by simp
  qed
qed

text \<open>
  Claim C9. After any sequence of register and unregister operations in which no socket
  is registered twice, the registry holds no empty array and no socket twice (and no key
  twice); removing the only socket of a key removes the key.
\<close>

theorem registry_invariant_preserved:
  assumes "distinct (registered ops)"
  shows "registry_ok (foldl apply_op [] ops) \<and>
    (\<forall>k conn. conns_of (foldl apply_op [] ops) k = [conn] \<longrightarrow>
       map_of (removeConnection k conn (foldl apply_op [] ops)) k = None)"
proof
  show "registry_ok (foldl apply_op [] ops)"
    using ops_invariant [OF assms, of "[]"]
    by (simp add: registry_ok_def no_empty_def tracked_def)
  show "\<forall>k conn. conns_of (foldl apply_op [] ops) k = [conn] \<longrightarrow>
       map_of (removeConnection k conn (foldl apply_op [] ops)) k = None"
  proof (intro allI impI)
    fix k conn
    assume "conns_of (foldl apply_op [] ops) k = [conn]"
    then have "map_of (foldl apply_op [] ops) k = Some [conn]"
      by (cases "map_of (foldl apply_op [] ops) k") (simp_all add: conns_of_def)
    then show "map_of (removeConnection k conn (foldl apply_op [] ops)) k = None"
      by (simp add: removeConnection_def delete_conv')
  qed
qed

theorem registry_invariant_preserved_witness:
  "distinct (registered
     [Register ''1.2.3.4:1234'' 1, Register ''1.2.3.4:1234'' 2, Register ''5.6.7.8:80'' 3,
      Unregister ''1.2.3.4:1234'' 1, Unregister ''5.6.7.8:80'' 3]) \<and>
   foldl apply_op []
     [Register ''1.2.3.4:1234'' 1, Register ''1.2.3.4:1234'' 2, Register ''5.6.7.8:80'' 3,
      Unregister ''1.2.3.4:1234'' 1, Unregister ''5.6.7.8:80'' 3] = [(''1.2.3.4:1234'', [2])] \<and>
   registry_ok [(''1.2.3.4:1234'', [2])] \<and>
   conns_of [(''1.2.3.4:1234'', [2])] ''1.2.3.4:1234'' = [2] \<and>
   map_of (removeConnection ''1.2.3.4:1234'' 2 [(''1.2.3.4:1234'', [2])]) ''1.2.3.4:1234'' = None"
proof -
  let ?ops = "[Register ''1.2.3.4:1234'' 1, Register ''1.2.3.4:1234'' 2,
      Register ''5.6.7.8:80'' 3, Unregister ''1.2.3.4:1234'' 1, Unregister ''5.6.7.8:80'' 3]"
  have h: "distinct (registered ?ops)" by simp
  have v: "foldl apply_op [] ?ops = [(''1.2.3.4:1234'', [2])]"
    by (simp add: addConnection_def removeConnection_def splice1_def Let_def)
  have c: "conns_of [(''1.2.3.4:1234'', [2])] ''1.2.3.4:1234'' = [2]"
    by (simp add: conns_of_def)
  from registry_invariant_preserved [OF h] c h v show ?thesis by simp
qed

subsection \<open>Registration order\<close>

lemma registered_append: "registered (xs @ ys) = registered xs @ registered ys"
  by (induction xs rule: registered.induct) simp_all

lemma registered_under_append:
  "registered_under k (xs @ ys) = registered_under k xs @ registered_under k ys"
  by (induction xs rule: registered_under.induct) simp_all

lemma registered_under_subset: "set (registered_under k ops) \<subseteq> set (registered ops)"
  by (induction ops rule: registered_under.induct) auto

lemma subseq_remove1: "subseq (remove1 x xs) xs"
  by (induction xs) auto

text \<open>The array of a key is a subsequence of the registrations under the key.\<close>

lemma conns_of_subseq:
  "subseq (conns_of (foldl apply_op [] ops) k) (registered_under k ops)"
proof (induction ops arbitrary: k rule: rev_induct)
  case Nil
  then show ?case by (simp add: conns_of_def)
next
  case (snoc op ops)
  show ?case
  proof (cases op)
    case (Register k' c)
    with snoc show ?thesis
      by (auto simp: conns_of_addConnection registered_under_append)
  next
    case (Unregister k' c)
    have "subseq (remove1 c (conns_of (foldl apply_op [] ops) k)) (registered_under k ops)"
      using subseq_remove1 snoc [of k] by (rule subseq_order.trans)
    with snoc [of k] Unregister show ?thesis
      by (auto simp: conns_of_removeConnection registered_under_append)
  qed
qed

lemma distinct_keys_fold:
  "distinct (map fst d) \<Longrightarrow> distinct (map fst (foldl apply_op d ops))"
proof (induction ops arbitrary: d)
  case Nil
  then show ?case by simp
next
  case (Cons op ops)
  then show ?case
    by (cases op) (simp_all add: distinct_keys_addConnection distinct_keys_removeConnection)
qed

lemma count_tracked_fold:
  "distinct (map fst d) \<Longrightarrow>
     count_list (tracked (foldl apply_op d ops)) x \<le>
       count_list (tracked d) x + count_list (registered ops) x"
proof (induction ops arbitrary: d)
  case Nil
  then show ?case by simp
next
  case (Cons op ops)
  show ?case
  proof (cases op)
    case (Register k c)
    from tracked_addConnection [of d k c] obtain pre post where
      t: "tracked d = pre @ post" "tracked (addConnection k c d) = pre @ c # post" by blast
    from Cons.IH [OF distinct_keys_addConnection [OF Cons.prems], of k c] t Register
    show ?thesis by (auto split: if_splits)
  next
    case (Unregister k c)
    from tracked_removeConnection [OF Cons.prems, of k c]
    have "count_list (tracked (removeConnection k c d)) x \<le> count_list (tracked d) x"
      by auto
    with Cons.IH [OF distinct_keys_removeConnection [OF Cons.prems], of k c] Unregister
    show ?thesis by simp
  qed
qed

lemma filter_pair_order:
  assumes f: "filter (\<lambda>x. x = a \<or> x = b) cs = [a, b]"
  shows "\<exists>i j. i < j \<and> j < length cs \<and> cs ! i = a \<and> cs ! j = b"
proof -
  let ?P = "\<lambda>x. x = a \<or> x = b"
  from f [unfolded filter_eq_Cons_iff] obtain us vs where
    1: "cs = us @ a # vs" "[b] = filter ?P vs" by blast
  from 1(2) [symmetric, unfolded filter_eq_Cons_iff] obtain us' vs' where
    2: "vs = us' @ b # vs'" by blast
  let ?i = "length us" and ?j = "length us + Suc (length us')"
  have "?i < ?j" "?j < length cs" "cs ! ?i = a" by (simp_all add: 1 2)
  moreover have "cs ! ?j = b" unfolding 1 2 by (simp add: nth_append)
  ultimately show ?thesis by blast
qed

lemma registration_order_kept:
  assumes ops: "ops = xs @ Register k a # ys @ Register k b # zs"
    and oa: "count_list (registered ops) a = 1"
    and ob: "count_list (registered ops) b = 1"
    and a: "a \<in> set (conns_of (foldl apply_op [] ops) k)"
    and b: "b \<in> set (conns_of (foldl apply_op [] ops) k)"
  shows "\<exists>i j. i < j \<and> j < length (conns_of (foldl apply_op [] ops) k) \<and>
           conns_of (foldl apply_op [] ops) k ! i = a \<and>
           conns_of (foldl apply_op [] ops) k ! j = b"
proof -
  let ?cs = "conns_of (foldl apply_op [] ops) k"
  let ?P = "\<lambda>x. x = a \<or> x = b"
  have r: "registered ops = registered xs @ a # registered ys @ b # registered zs"
    by (simp add: ops registered_append)
  from oa ob have ne: "a \<noteq> b" and na: "a \<notin> set (registered xs)" "a \<notin> set (registered ys)"
    "a \<notin> set (registered zs)" and nb: "b \<notin> set (registered xs)" "b \<notin> set (registered ys)"
    "b \<notin> set (registered zs)"
    unfolding r by (auto simp: count_list_0_iff split: if_splits)
  have none: "filter ?P (registered_under k us) = []" if "a \<notin> set (registered us)"
    "b \<notin> set (registered us)" for us
    using that registered_under_subset [of k us] by (auto simp: filter_empty_conv)
  have ru: "filter ?P (registered_under k ops) = [a, b]"
    using none [OF na(1) nb(1)] none [OF na(2) nb(2)] none [OF na(3) nb(3)]
    by (simp add: ops registered_under_append)
  have sub: "subseq (filter ?P ?cs) [a, b]"
    using subseq_filter [OF conns_of_subseq [of ops k], of ?P] ru by simp
  from a b have "a \<in> set (filter ?P ?cs)" "b \<in> set (filter ?P ?cs)" by simp_all
  with ne have "card {a, b} \<le> card (set (filter ?P ?cs))"
    by (intro card_mono) auto
  also have "\<dots> \<le> length (filter ?P ?cs)" by (rule card_length)
  finally have "2 \<le> length (filter ?P ?cs)" using ne by simp
  with list_emb_length [OF sub] have "length (filter ?P ?cs) = length [a, b]" by simp
  from subseq_same_length [OF sub this] have "filter ?P ?cs = [a, b]" .
  from filter_pair_order [OF this] show ?thesis .
qed

section \<open>The parent walk\<close>

lemma chain_ends_returns: "chain_ends s h \<Longrightarrow> \<exists>b. checkDestroyed s h = Some b"
proof (induction rule: chain_ends.induct)
  case (root h)
  then show ?case by (subst checkDestroyed.simps) auto
next
  case (link h p)
  then show ?case by (subst checkDestroyed.simps) auto
qed

lemma checkDestroyed_True_chain:
  assumes ret: "checkDestroyed s h = Some b"
  shows "b = True \<longrightarrow> (\<exists>g. on_chain s h g \<and> destroyed (s g))"
proof (rule checkDestroyed.raw_induct
    [where P = "\<lambda>s h b. b = True \<longrightarrow> (\<exists>g. on_chain s h g \<and> destroyed (s g))", OF _ ret])
  fix f :: "heap \<Rightarrow> handle \<Rightarrow> bool option" and s h b
  assume ih: "\<And>s h b. f s h = Some b \<Longrightarrow> b = True \<longrightarrow> (\<exists>g. on_chain s h g \<and> destroyed (s g))"
  assume body: "(if destroyed (s h) then Some True
      else case parent (s h) of None \<Rightarrow> Some False | Some p \<Rightarrow> f s p) = Some b"
  show "b = True \<longrightarrow> (\<exists>g. on_chain s h g \<and> destroyed (s g))"
  proof (cases "destroyed (s h)")
    case True
    then show ?thesis using on_chain.here by blast
  next
    case False
    show ?thesis
    proof
      assume b: "b = True"
      from False body b obtain p where p: "parent (s h) = Some p" "f s p = Some b"
        by (auto split: option.splits)
      from ih [OF p(2)] b obtain g where "on_chain s p g" "destroyed (s g)" by blast
      then show "\<exists>g. on_chain s h g \<and> destroyed (s g)" using p(1) on_chain.up by blast
    qed
  qed
qed

lemma chain_destroyed_True:
  "on_chain s h g \<Longrightarrow> destroyed (s g) \<Longrightarrow> checkDestroyed s h = Some True"
proof (induction rule: on_chain.induct)
  case (here h)
  then show ?case by (subst checkDestroyed.simps) simp
next
  case (up h p g)
  then show ?case by (subst checkDestroyed.simps) simp
qed

lemma checkDestroyed_iff:
  "checkDestroyed s h = Some True \<longleftrightarrow> (\<exists>g. on_chain s h g \<and> destroyed (s g))"
  using checkDestroyed_True_chain [of s h True] chain_destroyed_True by blast

text \<open>The walk returns only in these two ways: with true at a destroyed socket, with
  false at the end of the chain. On a cycle without a destroyed socket it does not
  return.\<close>

lemma checkDestroyed_returns_only:
  assumes ret: "checkDestroyed s h = Some b"
  shows "(b \<and> (\<exists>g. on_chain s h g \<and> destroyed (s g))) \<or> (\<not> b \<and> chain_ends s h)"
proof (rule checkDestroyed.raw_induct
    [where P = "\<lambda>s h b. (b \<and> (\<exists>g. on_chain s h g \<and> destroyed (s g))) \<or> (\<not> b \<and> chain_ends s h)",
      OF _ ret])
  fix f :: "heap \<Rightarrow> handle \<Rightarrow> bool option" and s h b
  assume ih: "\<And>s h b. f s h = Some b \<Longrightarrow>
      (b \<and> (\<exists>g. on_chain s h g \<and> destroyed (s g))) \<or> (\<not> b \<and> chain_ends s h)"
  assume body: "(if destroyed (s h) then Some True
      else case parent (s h) of None \<Rightarrow> Some False | Some p \<Rightarrow> f s p) = Some b"
  show "(b \<and> (\<exists>g. on_chain s h g \<and> destroyed (s g))) \<or> (\<not> b \<and> chain_ends s h)"
  proof (cases "destroyed (s h)")
    case True
    with body have b by simp
    with True show ?thesis using on_chain.here by blast
  next
    case False
    show ?thesis
    proof (cases "parent (s h)")
      case None
      with False body have "\<not> b" by simp
      with None show ?thesis using chain_ends.root by blast
    next
      case (Some p)
      with False body have "f s p = Some b" by simp
      from ih [OF this] Some show ?thesis
        using on_chain.up [of s h p] chain_ends.link [of s h p] by blast
    qed
  qed
qed

lemma looped_on_chain: "on_chain looped h g \<Longrightarrow> h = 1 \<or> h = 2 \<Longrightarrow> g = 1 \<or> g = 2"
  by (induction rule: on_chain.induct) (auto simp: looped_def split: if_splits)

lemma looped_no_end: "chain_ends looped h \<Longrightarrow> h \<noteq> 1 \<and> h \<noteq> 2"
  by (induction rule: chain_ends.induct) (auto simp: looped_def split: if_splits)

lemma looped_hangs: "checkDestroyed looped 1 = None"
proof (cases "checkDestroyed looped 1")
  case None
  then show ?thesis .
next
  case (Some b)
  from checkDestroyed_returns_only [OF Some] looped_no_end [of 1] looped_on_chain [of 1]
  have "\<exists>g. (g = 1 \<or> g = 2) \<and> destroyed (looped g)" by blast
  then show ?thesis by (auto simp: looped_def streams_def stream_sock_def)
qed

text \<open>
  Claim C7. On a finite, acyclic parent chain the walk of \<open>checkDestroyed\<close> returns, with
  true or with false.
\<close>

theorem checkDestroyed_terminates:
  "chain_ends s h \<Longrightarrow> checkDestroyed s h = Some True \<or> checkDestroyed s h = Some False"
  using chain_ends_returns [of s h] by auto

theorem checkDestroyed_terminates_witness:
  "chain_ends layered 2 \<and>
   (checkDestroyed layered 2 = Some True \<or> checkDestroyed layered 2 = Some False) \<and>
   checkDestroyed layered 2 = Some False"
proof -
  have v: "checkDestroyed layered 2 = Some False"
    by (simp add: checkDestroyed.simps layered_def streams_def stream_sock_def)
  have "chain_ends layered 1"
    by (rule chain_ends.root) (simp add: layered_def streams_def stream_sock_def)
  then have ends: "chain_ends layered 2"
    by (rule chain_ends.link [rotated]) (simp add: layered_def)
  from ends checkDestroyed_terminates [OF ends] v show ?thesis by simp
qed

section \<open>What \<open>destroy\<close> destroys\<close>

lemma destroy_conns_log:
  "destroy_conns kill cs st = Some st' \<Longrightarrow>
     terminated st' = terminated st @ cs \<and> map fst (waits st') = map fst (waits st) @ cs"
proof (induction cs arbitrary: st)
  case Nil
  then show ?case by simp
next
  case (Cons c cs)
  from Cons.prems obtain b where b: "already_closed (heap_of st) c = Some b"
    and rest: "destroy_conns kill cs
       \<lparr>heap_of = kill c (heap_of st), waits = waits st @ [(c, b)],
        terminated = terminated st @ [c]\<rparr> = Some st'"
    by (auto split: option.splits)
  from Cons.IH [OF rest] show ?case by simp
qed

lemma destroy_keys_log:
  "destroy_keys kill d st = Some st' \<Longrightarrow>
     terminated st' = terminated st @ concat (map (rev \<circ> snd) d) \<and>
     map fst (waits st') = map fst (waits st) @ concat (map (rev \<circ> snd) d)"
proof (induction d arbitrary: st)
  case Nil
  then show ?case by simp
next
  case (Cons p d)
  obtain k cs where p: "p = (k, cs)" by (cases p)
  from Cons.prems p obtain st1 where st1: "destroy_conns kill (rev cs) st = Some st1"
    and rest: "destroy_keys kill d st1 = Some st'"
    by (auto split: option.splits)
  from destroy_conns_log [OF st1] Cons.IH [OF rest] p show ?case by simp
qed

lemma destroy_conns_returns:
  "finite_chains (heap_of st) \<Longrightarrow> keeps_chains kill \<Longrightarrow>
     \<exists>st'. destroy_conns kill cs st = Some st' \<and> finite_chains (heap_of st')"
proof (induction cs arbitrary: st)
  case Nil
  then show ?case by simp
next
  case (Cons c cs)
  from Cons.prems(1) have "chain_ends (heap_of st) c" by (simp add: finite_chains_def)
  from chain_ends_returns [OF this] have "\<exists>b. already_closed (heap_of st) c = Some b"
    by (auto simp: already_closed_def)
  then obtain b where "already_closed (heap_of st) c = Some b" ..
  moreover from Cons.prems have "finite_chains (kill c (heap_of st))"
    by (simp add: keeps_chains_def)
  ultimately show ?case using Cons.IH [of "\<lparr>heap_of = kill c (heap_of st),
      waits = waits st @ [(c, b)], terminated = terminated st @ [c]\<rparr>"] Cons.prems(2)
    by simp
qed

lemma destroy_keys_returns:
  "finite_chains (heap_of st) \<Longrightarrow> keeps_chains kill \<Longrightarrow>
     \<exists>st'. destroy_keys kill d st = Some st' \<and> finite_chains (heap_of st')"
proof (induction d arbitrary: st)
  case Nil
  then show ?case by simp
next
  case (Cons p d)
  obtain k cs where p: "p = (k, cs)" by (cases p)
  from destroy_conns_returns [OF Cons.prems, of "rev cs"] obtain st1 where
    st1: "destroy_conns kill (rev cs) st = Some st1" "finite_chains (heap_of st1)" by blast
  from Cons.IH [OF st1(2) Cons.prems(2)] st1(1) p show ?case by simp
qed

lemma destroy_returns:
  assumes "finite_chains (socks w)" and "keeps_chains kill"
  shows "\<exists>w' log. destroy kill w = Some (w', log)"
proof -
  from destroy_keys_returns [of "\<lparr>heap_of = socks w, waits = [], terminated = []\<rparr>" kill
      "connectionDict w"] assms
  obtain st where "destroy_keys kill (connectionDict w)
      \<lparr>heap_of = socks w, waits = [], terminated = []\<rparr> = Some st" by auto
  then show ?thesis by (simp add: destroy_def)
qed

lemma destroy_result:
  assumes "destroy kill w = Some (w', log)"
  shows "log = concat (map (rev \<circ> snd) (connectionDict w))"
    and "connectionDict w' = connectionDict w"
    and "closeHandlers w' = closeHandlers w"
    and "\<exists>c. calls w' = calls w @ [c] \<and> promise c = Pending \<and> stage c = Waiting \<and>
           map fst (closePromises c) = log"
proof -
  from assms obtain st where st: "destroy_keys kill (connectionDict w)
      \<lparr>heap_of = socks w, waits = [], terminated = []\<rparr> = Some st"
    and w': "w' = w\<lparr>socks := heap_of st, calls := calls w @
        [\<lparr>promise = Pending, closePromises = waits st, stage = Waiting\<rparr>]\<rparr>"
    and log: "log = terminated st"
    by (auto simp: destroy_def split: option.splits)
  from destroy_keys_log [OF st] log show "log = concat (map (rev \<circ> snd) (connectionDict w))"
    by simp
  from w' show "connectionDict w' = connectionDict w" "closeHandlers w' = closeHandlers w"
    by simp_all
  from destroy_keys_log [OF st] log w'
  show "\<exists>c. calls w' = calls w @ [c] \<and> promise c = Pending \<and> stage c = Waiting \<and>
           map fst (closePromises c) = log"
    by simp
qed

subsection \<open>The verdicts of the closed test\<close>

lemma already_closed_reports:
  "reports_closed s h \<Longrightarrow> already_closed s h = Some b \<Longrightarrow> b"
  using chain_destroyed_True [of s h]
  by (auto simp: reports_closed_def already_closed_def split: if_splits)

lemma already_closed_verdict:
  assumes "already_closed s h = Some b"
  shows "b = reports_closed s h"
proof (cases b)
  case True
  show ?thesis
  proof (cases "closed (s h)")
    case c: True
    with True show ?thesis by (simp add: reports_closed_def)
  next
    case False
    with assms True have "checkDestroyed s h = Some True" by (simp add: already_closed_def)
    with True show ?thesis by (simp add: reports_closed_def checkDestroyed_iff)
  qed
next
  case False
  with already_closed_reports [OF _ assms] show ?thesis by auto
qed

lemma armed_Nil: "armed kill s [] = []"
  by (simp add: armed_def)

lemma armed_Cons: "armed kill s (c # cs) = (c, reports_closed s c) # armed kill (kill c s) cs"
proof -
  have "[0..<length (c # cs)] = 0 # map Suc [0..<length cs]"
    by (simp add: upt_conv_Cons map_Suc_upt del: upt_Suc)
  then show ?thesis by (simp add: armed_def comp_def)
qed

lemma armed_append:
  "armed kill s (xs @ ys) = armed kill s xs @ armed kill (fold kill xs s) ys"
  by (induction xs arbitrary: s) (simp_all add: armed_Nil armed_Cons)

lemma armed_nth:
  "i < length cs \<Longrightarrow>
     armed kill s cs ! i = (cs ! i, reports_closed (fold kill (take i cs) s) (cs ! i))"
  by (simp add: armed_def)

lemma armed_length: "length (armed kill s cs) = length cs"
  by (simp add: armed_def)

lemma destroy_conns_armed:
  "destroy_conns kill cs st = Some st' \<Longrightarrow>
     heap_of st' = fold kill cs (heap_of st) \<and> waits st' = waits st @ armed kill (heap_of st) cs"
proof (induction cs arbitrary: st)
  case Nil
  then show ?case by (simp add: armed_Nil)
next
  case (Cons c cs)
  from Cons.prems obtain b where b: "already_closed (heap_of st) c = Some b"
    and rest: "destroy_conns kill cs
       \<lparr>heap_of = kill c (heap_of st), waits = waits st @ [(c, b)],
        terminated = terminated st @ [c]\<rparr> = Some st'"
    by (auto split: option.splits)
  from Cons.IH [OF rest] already_closed_verdict [OF b] show ?case by (simp add: armed_Cons)
qed

lemma destroy_keys_armed:
  "destroy_keys kill d st = Some st' \<Longrightarrow>
     heap_of st' = fold kill (sweep_order d) (heap_of st) \<and>
     waits st' = waits st @ armed kill (heap_of st) (sweep_order d)"
proof (induction d arbitrary: st)
  case Nil
  then show ?case by (simp add: sweep_order_def armed_Nil)
next
  case (Cons p d)
  obtain k cs where p: "p = (k, cs)" by (cases p)
  from Cons.prems p obtain st1 where st1: "destroy_conns kill (rev cs) st = Some st1"
    and rest: "destroy_keys kill d st1 = Some st'"
    by (auto split: option.splits)
  have so: "sweep_order (p # d) = rev cs @ sweep_order d" by (simp add: sweep_order_def p)
  from destroy_conns_armed [OF st1] Cons.IH [OF rest] show ?case
    by (simp add: so armed_append)
qed

lemma destroy_effect:
  assumes "destroy kill w = Some (w', log)"
  shows "log = sweep_order (connectionDict w)"
    and "socks w' = fold kill log (socks w)"
    and "closePromises (last (calls w')) = armed kill (socks w) log"
proof -
  from assms obtain st where st: "destroy_keys kill (connectionDict w)
      \<lparr>heap_of = socks w, waits = [], terminated = []\<rparr> = Some st"
    and w': "w' = w\<lparr>socks := heap_of st, calls := calls w @
        [\<lparr>promise = Pending, closePromises = waits st, stage = Waiting\<rparr>]\<rparr>"
    and log: "log = terminated st"
    by (auto simp: destroy_def split: option.splits)
  from destroy_keys_log [OF st] log show l: "log = sweep_order (connectionDict w)"
    by (simp add: sweep_order_def)
  from destroy_keys_armed [OF st] w' l show "socks w' = fold kill log (socks w)"
    and "closePromises (last (calls w')) = armed kill (socks w) log"
    by simp_all
qed

lemma count_sweep_order: "count_list (sweep_order d) x = count_list (tracked d) x"
  by (induction d) (simp_all add: sweep_order_def tracked_def)

lemma set_sweep_order: "set (sweep_order d) = set (tracked d)"
  by (induction d) (simp_all add: sweep_order_def tracked_def)

lemma destroy_log_set:
  assumes "destroy kill w = Some (w', log)"
  shows "set log = set (tracked (connectionDict w))"
  using destroy_result(1) [OF assms] by (auto simp: tracked_def)

lemma rev_order:
  assumes "i < j" and "j < length cs"
  shows "\<exists>p q. p < q \<and> q < length (rev cs) \<and> rev cs ! p = cs ! j \<and> rev cs ! q = cs ! i"
proof -
  let ?p = "length cs - Suc j" and ?q = "length cs - Suc i"
  from assms have "?p < ?q" "?q < length (rev cs)" by simp_all
  moreover from assms have "rev cs ! ?p = cs ! j" "rev cs ! ?q = cs ! i"
    by (simp_all add: rev_nth)
  ultimately show ?thesis by blast
qed

lemma order_in_concat:
  assumes "xs \<in> set xss" and "p < q" and "q < length xs"
  shows "\<exists>p' q'. p' < q' \<and> q' < length (concat xss) \<and>
           concat xss ! p' = xs ! p \<and> concat xss ! q' = xs ! q"
proof -
  from assms(1) obtain a b where "xss = a @ xs # b" by (meson split_list)
  then have c: "concat xss = concat a @ xs @ concat b" by simp
  let ?n = "length (concat a)"
  from assms have "?n + p < ?n + q" "?n + q < length (concat xss)" by (simp_all add: c)
  moreover from assms have "concat xss ! (?n + p) = xs ! p" "concat xss ! (?n + q) = xs ! q"
    by (simp_all add: c nth_append)
  ultimately show ?thesis by blast
qed

lemma destroy_order:
  assumes d: "destroy kill w = Some (w', log)"
    and k: "map_of (connectionDict w) k = Some conns"
    and ij: "i < j" "j < length conns"
  shows "\<exists>p q. p < q \<and> q < length log \<and> log ! p = conns ! j \<and> log ! q = conns ! i"
proof -
  from k have "(k, conns) \<in> set (connectionDict w)" by (rule map_of_SomeD)
  then have mem: "rev conns \<in> set (map (rev \<circ> snd) (connectionDict w))" by force
  from rev_order [OF ij] obtain p q where
    pq: "p < q" "q < length (rev conns)" "rev conns ! p = conns ! j" "rev conns ! q = conns ! i"
    by blast
  from order_in_concat [OF mem pq(1,2)] pq(3,4) destroy_result(1) [OF d]
  show ?thesis by simp
qed

subsection \<open>The streams of the runtime\<close>

lemma parent_node_destroy: "parent (node_destroy c s h) = parent (s h)"
  by (simp add: node_destroy_def)

lemma chain_ends_node_destroy: "chain_ends s h \<Longrightarrow> chain_ends (node_destroy c s) h"
proof (induction rule: chain_ends.induct)
  case (root h)
  then show ?case by (simp add: chain_ends.root parent_node_destroy)
next
  case (link h p)
  then show ?case using chain_ends.link [of "node_destroy c s" h p]
    by (simp add: parent_node_destroy)
qed

lemma keeps_chains_node_destroy: "keeps_chains node_destroy"
  by (simp add: keeps_chains_def finite_chains_def chain_ends_node_destroy)

lemma on_chain_node_destroy: "on_chain s h g \<Longrightarrow> on_chain (node_destroy c s) h g"
proof (induction rule: on_chain.induct)
  case (here h)
  then show ?case by (rule on_chain.here)
next
  case (up h p g)
  then show ?case using on_chain.up [of "node_destroy c s" h p g]
    by (simp add: parent_node_destroy)
qed

lemma keeps_closed_node_destroy: "keeps_closed node_destroy h"
proof -
  have "reports_closed (node_destroy c s) h" if "reports_closed s h" for c s
  proof (cases "closed (s h)")
    case True
    then have "closed (node_destroy c s h)" by (auto simp: node_destroy_def)
    then show ?thesis by (simp add: reports_closed_def)
  next
    case False
    with that obtain g where "on_chain s h g" "destroyed (s g)"
      by (auto simp: reports_closed_def)
    then have "on_chain (node_destroy c s) h g" "destroyed (node_destroy c s g)"
      by (auto simp: on_chain_node_destroy) (simp add: node_destroy_def)
    then show ?thesis by (auto simp: reports_closed_def)
  qed
  then show ?thesis by (simp add: keeps_closed_def)
qed

lemma finite_chains_streams: "finite_chains streams"
  by (simp add: finite_chains_def chain_ends.root streams_def stream_sock_def)

text \<open>
  Claim C2, as stated, fails when a socket is registered more than once: with socket \<open>1\<close>
  registered under a key, then socket \<open>2\<close>, then socket \<open>1\<close> again, socket \<open>1\<close> is registered
  before socket \<open>2\<close> and both are still registered, and the first socket \<open>destroy\<close>
  destroys is socket \<open>1\<close>.
\<close>

theorem registered_twice_destroyed_first:
  "connectionDict twice_accepted =
     foldl apply_op []
       [Register ''1.2.3.4:1234'' 1, Register ''1.2.3.4:1234'' 2, Register ''1.2.3.4:1234'' 1] \<and>
   conns_of (connectionDict twice_accepted) ''1.2.3.4:1234'' = [1, 2, 1] \<and>
   map_option snd (destroy node_destroy twice_accepted) = Some [1, 2, 1]"
  by (simp add: twice_accepted_def conns_of_def world_defs)

text \<open>
  Claim C2, amended. Let the registry be the result of a sequence of register and
  unregister operations in which \<open>a\<close> is registered under \<open>k\<close> before \<open>b\<close> is, each of the two
  registered once, and let both still be in the array of \<open>k\<close>. Then whenever \<open>destroy\<close>
  returns, it has applied \<open>conn.destroy()\<close> to the sockets in the order of its log, the
  log holds \<open>a\<close> once and \<open>b\<close> once, and \<open>b\<close> comes before \<open>a\<close>; and it does return when the
  parent chains are finite.
\<close>

theorem destroy_reverse_registration_order:
  assumes ops: "ops = xs @ Register k a # ys @ Register k b # zs"
    and oa: "count_list (registered ops) a = 1"
    and ob: "count_list (registered ops) b = 1"
    and reg: "connectionDict w = foldl apply_op [] ops"
    and a: "a \<in> set (conns_of (connectionDict w) k)"
    and b: "b \<in> set (conns_of (connectionDict w) k)"
  shows "(\<forall>w' log. destroy kill w = Some (w', log) \<longrightarrow>
            socks w' = fold kill log (socks w) \<and>
            count_list log a = 1 \<and> count_list log b = 1 \<and>
            (\<exists>p q. p < q \<and> q < length log \<and> log ! p = b \<and> log ! q = a)) \<and>
         (finite_chains (socks w) \<and> keeps_chains kill \<longrightarrow>
            (\<exists>w' log. destroy kill w = Some (w', log)))"
proof (intro conjI allI impI)
  fix w' log
  assume d: "destroy kill w = Some (w', log)"
  from destroy_effect(2) [OF d] show "socks w' = fold kill log (socks w)" .
  from a obtain cs where cs: "map_of (connectionDict w) k = Some cs"
    by (cases "map_of (connectionDict w) k") (auto simp: conns_of_def)
  then have eq: "conns_of (connectionDict w) k = cs" by (simp add: conns_of_def)
  from cs have "set cs \<subseteq> set (tracked (connectionDict w))"
    by (auto simp: tracked_def dest!: map_of_SomeD)
  with a b eq have mem: "a \<in> set log" "b \<in> set log"
    using destroy_effect(1) [OF d] by (auto simp: set_sweep_order)
  have le: "count_list log x \<le> count_list (registered ops) x" for x
    using count_tracked_fold [of "[]" ops x] destroy_effect(1) [OF d] reg
    by (simp add: count_sweep_order tracked_def)
  from mem(1) have "count_list log a \<noteq> 0" by (simp add: count_list_0_iff)
  with le [of a] oa show "count_list log a = 1" by simp
  from mem(2) have "count_list log b \<noteq> 0" by (simp add: count_list_0_iff)
  with le [of b] ob show "count_list log b = 1" by simp
  from registration_order_kept [OF ops oa ob] a b reg obtain i j where
    ij: "i < j" "j < length (conns_of (connectionDict w) k)"
    "conns_of (connectionDict w) k ! i = a" "conns_of (connectionDict w) k ! j = b"
    by auto
  with destroy_order [OF d cs, of i j] eq
  show "\<exists>p q. p < q \<and> q < length log \<and> log ! p = b \<and> log ! q = a" by simp
next
  assume "finite_chains (socks w) \<and> keeps_chains kill"
  then show "\<exists>w' log. destroy kill w = Some (w', log)"
    using destroy_returns [of w kill] by simp
qed

theorem destroy_reverse_registration_order_witness:
  "count_list (registered [Register ''1.2.3.4:1234'' 1, Register ''1.2.3.4:1234'' 2]) 1 = 1 \<and>
   count_list (registered [Register ''1.2.3.4:1234'' 1, Register ''1.2.3.4:1234'' 2]) 2 = 1 \<and>
   connectionDict two_streams =
     foldl apply_op [] [Register ''1.2.3.4:1234'' 1, Register ''1.2.3.4:1234'' 2] \<and>
   1 \<in> set (conns_of (connectionDict two_streams) ''1.2.3.4:1234'') \<and>
   2 \<in> set (conns_of (connectionDict two_streams) ''1.2.3.4:1234'') \<and>
   finite_chains (socks two_streams) \<and> keeps_chains node_destroy \<and>
   (\<exists>w' log. destroy node_destroy two_streams = Some (w', log) \<and> log = [2, 1] \<and>
      socks w' = fold node_destroy log (socks two_streams) \<and>
      destroyed (socks w' 1) \<and> destroyed (socks w' 2) \<and>
      count_list log 1 = 1 \<and> count_list log 2 = 1 \<and>
      (\<exists>p q. p < q \<and> q < length log \<and> log ! p = 2 \<and> log ! q = 1))"
proof -
  let ?ops = "[Register ''1.2.3.4:1234'' 1, Register ''1.2.3.4:1234'' 2]"
  have h1: "count_list (registered ?ops) 1 = 1" "count_list (registered ?ops) 2 = 1"
    by simp_all
  have h2: "?ops = [] @ Register ''1.2.3.4:1234'' 1 # [] @ Register ''1.2.3.4:1234'' 2 # []"
    by simp
  have h3: "connectionDict two_streams = foldl apply_op [] ?ops"
    by (simp add: two_streams_def world_defs)
  have h4: "1 \<in> set (conns_of (connectionDict two_streams) ''1.2.3.4:1234'')"
    and h5: "2 \<in> set (conns_of (connectionDict two_streams) ''1.2.3.4:1234'')"
    by (simp_all add: two_streams_def conns_of_def world_defs)
  have h6: "finite_chains (socks two_streams)"
    using finite_chains_streams
    by (simp add: two_streams_def on_connection_def makeDestroyable_def Let_def)
  have h7: "keeps_chains node_destroy" by (rule keeps_chains_node_destroy)
  have ev: "map_option (\<lambda>(w', log). (log, destroyed (socks w' 1), destroyed (socks w' 2)))
      (destroy node_destroy two_streams) = Some ([2, 1], True, True)"
    by (simp add: two_streams_def world_defs)
  note ro = destroy_reverse_registration_order [OF h2 h1 h3 h4 h5, of node_destroy]
  from ro h6 h7 obtain w' log where d: "destroy node_destroy two_streams = Some (w', log)"
    by blast
  from ev d have v: "log = [2, 1]" "destroyed (socks w' 1)" "destroyed (socks w' 2)"
    by simp_all
  from ro d have "socks w' = fold node_destroy log (socks two_streams) \<and>
      count_list log 1 = 1 \<and> count_list log 2 = 1 \<and>
      (\<exists>p q. p < q \<and> q < length log \<and> log ! p = 2 \<and> log ! q = 1)"
    by blast
  with d v
  have "\<exists>w' log. destroy node_destroy two_streams = Some (w', log) \<and> log = [2, 1] \<and>
      socks w' = fold node_destroy log (socks two_streams) \<and>
      destroyed (socks w' 1) \<and> destroyed (socks w' 2) \<and>
      count_list log 1 = 1 \<and> count_list log 2 = 1 \<and>
      (\<exists>p q. p < q \<and> q < length log \<and> log ! p = 2 \<and> log ! q = 1)"
    by blast
  with h1 h3 h4 h5 h6 h7 show ?thesis by blast
qed

text \<open>
  Claim C8. Two distinct sockets with the same remote address and port get the same key;
  after both connection events the array of that key ends with the two of them; whenever
  \<open>destroy\<close> returns, both are in its log and \<open>conn.destroy()\<close> was applied to the sockets of
  the log, and it returns when the parent chains are finite.
\<close>

theorem duplicate_keys_both_destroyed:
  assumes ne: "h1 \<noteq> h2"
    and addr: "remoteAddress (socks w h1) = remoteAddress (socks w h2)"
    and port: "remotePort (socks w h1) = remotePort (socks w h2)"
  shows "conn_key (socks w h1) = conn_key (socks w h2) \<and>
    (\<exists>cs. map_of (connectionDict (on_connection h2 (on_connection h1 w))) (conn_key (socks w h1)) =
             Some (cs @ [h1, h2])) \<and>
    (\<forall>w' log. destroy kill (on_connection h2 (on_connection h1 w)) = Some (w', log) \<longrightarrow>
        h1 \<in> set log \<and> h2 \<in> set log \<and> socks w' = fold kill log (socks w)) \<and>
    (finite_chains (socks w) \<and> keeps_chains kill \<longrightarrow>
       (\<exists>w' log. destroy kill (on_connection h2 (on_connection h1 w)) = Some (w', log)))"
proof -
  let ?w = "on_connection h2 (on_connection h1 w)"
  let ?k = "conn_key (socks w h1)"
  from addr port have key: "?k = conn_key (socks w h2)" by (simp add: conn_key_def)
  have s: "socks ?w = socks w" by (simp add: on_connection_def Let_def)
  have d: "connectionDict ?w = addConnection ?k h2 (addConnection ?k h1 (connectionDict w))"
    using key by (simp add: on_connection_def Let_def)
  have m: "map_of (connectionDict ?w) ?k =
      Some ((case map_of (connectionDict w) ?k of None \<Rightarrow> [] | Some cs \<Rightarrow> cs) @ [h1, h2])"
    by (simp add: d map_of_addConnection)
  then have both: "h1 \<in> set (tracked (connectionDict ?w))" "h2 \<in> set (tracked (connectionDict ?w))"
    by (auto simp: tracked_def dest!: map_of_SomeD intro!: bexI)
  have "h1 \<in> set log \<and> h2 \<in> set log \<and> socks w' = fold kill log (socks w)"
    if "destroy kill ?w = Some (w', log)" for w' log
    using destroy_log_set [OF that] both destroy_effect(2) [OF that] s by simp
  moreover have "\<exists>w' log. destroy kill ?w = Some (w', log)"
    if "finite_chains (socks w) \<and> keeps_chains kill"
    using destroy_returns [of ?w kill] that s by simp
  ultimately show ?thesis using key m by blast
qed

theorem duplicate_keys_both_destroyed_witness:
  "(1::nat) \<noteq> 2 \<and>
   remoteAddress (socks (makeDestroyable streams) 1) =
     remoteAddress (socks (makeDestroyable streams) 2) \<and>
   remotePort (socks (makeDestroyable streams) 1) =
     remotePort (socks (makeDestroyable streams) 2) \<and>
   conn_key (socks (makeDestroyable streams) 1) = ''1.2.3.4:1234'' \<and>
   conn_key (socks (makeDestroyable streams) 2) = ''1.2.3.4:1234'' \<and>
   map_of (connectionDict two_streams) ''1.2.3.4:1234'' = Some [1, 2] \<and>
   finite_chains (socks (makeDestroyable streams)) \<and> keeps_chains node_destroy \<and>
   (\<exists>w' log. destroy node_destroy two_streams = Some (w', log) \<and>
      1 \<in> set log \<and> 2 \<in> set log \<and>
      socks w' = fold node_destroy log (socks (makeDestroyable streams))) \<and>
   map_option (\<lambda>(w', log). (destroyed (socks w' 1), destroyed (socks w' 2)))
     (destroy node_destroy two_streams) = Some (True, True)"
proof -
  have e: "map_option (\<lambda>(w', log). (destroyed (socks w' 1), destroyed (socks w' 2)))
     (destroy node_destroy two_streams) = Some (True, True)"
    by (simp add: two_streams_def world_defs)
  let ?w = "makeDestroyable streams"
  have h1: "(1::nat) \<noteq> 2" by simp
  have h2: "remoteAddress (socks ?w 1) = remoteAddress (socks ?w 2)"
    and h3: "remotePort (socks ?w 1) = remotePort (socks ?w 2)"
    by (simp_all add: makeDestroyable_def streams_def)
  have k: "conn_key (socks ?w 1) = ''1.2.3.4:1234''" "conn_key (socks ?w 2) = ''1.2.3.4:1234''"
    by (simp_all add: world_defs)
  have m: "map_of (connectionDict two_streams) ''1.2.3.4:1234'' = Some [1, 2]"
    by (simp add: two_streams_def world_defs)
  have f: "finite_chains (socks ?w)"
    using finite_chains_streams by (simp add: makeDestroyable_def)
  have c: "keeps_chains node_destroy" by (rule keeps_chains_node_destroy)
  from duplicate_keys_both_destroyed [OF h1 h2 h3, of node_destroy] f c
  have "\<exists>w' log. destroy node_destroy two_streams = Some (w', log) \<and>
      1 \<in> set log \<and> 2 \<in> set log \<and>
      socks w' = fold node_destroy log (socks (makeDestroyable streams))"
    unfolding two_streams_def by blast
  with h1 h2 h3 k m f c e show ?thesis by blast
qed

section \<open>The returned promise\<close>

subsection \<open>One invocation\<close>

lemma settle_fields [simp]:
  "closePromises (settle c) = closePromises c"
  "promise (settle c) = promise c"
  by (simp_all add: settle_def)

lemma call_event_promises:
  "closePromises (call_event n e c) =
     map (\<lambda>(h, b). (h, b \<or> e = SockClose h)) (closePromises c)"
  by (cases e) (auto simp: resolve_promise_def reject_promise_def split: option.splits)

lemma call_run_append: "call_run n (xs @ ys) c = call_run n ys (call_run n xs c)"
  by (induction xs arbitrary: c) simp_all

lemma call_run_promises:
  "closePromises (call_run n evs c) =
     map (\<lambda>(h, b). (h, b \<or> SockClose h \<in> set evs)) (closePromises c)"
proof (induction evs arbitrary: c)
  case Nil
  then show ?case by simp
next
  case (Cons e es)
  show ?case
    by (simp add: Cons.IH call_event_promises) (auto simp: fun_eq_iff)
qed

lemma all_resolved_mono:
  "list_all snd ps \<Longrightarrow> list_all snd (map (\<lambda>(h, b). (h, b \<or> Q h)) ps)"
  by (induction ps) auto

lemma call_ok_step: "call_ok c \<Longrightarrow> call_ok (settle (call_event n e c))"
proof -
  assume ok: "call_ok c"
  have mono: "list_all snd (closePromises c) \<Longrightarrow> list_all snd (closePromises (call_event n e c))"
    by (simp add: call_event_promises all_resolved_mono)
  show ?thesis
  proof (cases e)
    case (SockClose h)
    with ok mono show ?thesis by (auto simp: call_ok_def settle_def)
  next
    case (ServerClosed m err)
    with ok show ?thesis
      by (auto simp: call_ok_def settle_def reject_promise_def split: option.splits)
  next
    case (Immediate m)
    with ok show ?thesis
      by (auto simp: call_ok_def settle_def resolve_promise_def)
  qed (use ok in \<open>auto simp: call_ok_def settle_def\<close>)
qed

lemma call_ok_run: "call_ok c \<Longrightarrow> call_ok (call_run n evs c)"
  by (induction evs arbitrary: c) (simp_all add: call_ok_step)

lemma call_ok_fresh: "promise c = Pending \<Longrightarrow> stage c = Waiting \<Longrightarrow> call_ok (settle c)"
  by (auto simp: call_ok_def settle_def)

lemma settled_settle: "settled (settle c)"
  by (simp add: settled_def settle_def)

lemma settled_run: "settled c \<Longrightarrow> settled (call_run n evs c)"
  by (induction evs arbitrary: c) (simp_all add: settled_settle)

lemma resolved_by_immediate:
  assumes "promise c \<noteq> Resolved" and "promise (settle (call_event n e c)) = Resolved"
  shows "e = Immediate n \<and> stage c = Queued \<and> promise c = Pending"
  using assms
  by (cases e) (auto simp: resolve_promise_def reject_promise_def split: option.splits if_splits)

lemma resolution_point:
  "promise c \<noteq> Resolved \<Longrightarrow> promise (call_run n evs c) = Resolved \<Longrightarrow>
     \<exists>pre post. evs = pre @ Immediate n # post \<and>
        promise (call_run n pre c) = Pending \<and> stage (call_run n pre c) = Queued"
proof (induction evs arbitrary: c)
  case Nil
  then show ?case by simp
next
  case (Cons e es)
  let ?c = "settle (call_event n e c)"
  show ?case
  proof (cases "promise ?c = Resolved")
    case True
    from resolved_by_immediate [OF Cons.prems(1) True]
    have "e # es = [] @ Immediate n # es \<and> promise (call_run n [] c) = Pending \<and>
        stage (call_run n [] c) = Queued" by simp
    then show ?thesis by blast
  next
    case False
    from Cons.prems(2) have "promise (call_run n es ?c) = Resolved" by simp
    from Cons.IH [OF False this] obtain pre post where
      "es = pre @ Immediate n # post" "promise (call_run n pre ?c) = Pending"
      "stage (call_run n pre ?c) = Queued" by blast
    then have "e # es = (e # pre) @ Immediate n # post \<and>
        promise (call_run n (e # pre) c) = Pending \<and> stage (call_run n (e # pre) c) = Queued"
      by simp
    then show ?thesis by blast
  qed
qed

lemma rejected_stays:
  "promise c = Rejected x \<Longrightarrow> promise (call_run n evs c) = Rejected x"
proof (induction evs arbitrary: c)
  case Nil
  then show ?case by simp
next
  case (Cons e es)
  have "promise (settle (call_event n e c)) = Rejected x"
    using Cons.prems
    by (cases e) (auto simp: resolve_promise_def reject_promise_def split: option.splits)
  from Cons.IH [OF this] show ?case by simp
qed

subsection \<open>From the server to one invocation\<close>

lemma turn_length [simp]: "length (turn e cs) = length cs"
  by (simp add: turn_def)

lemma turn_nth: "n < length cs \<Longrightarrow> turn e cs ! n = settle (call_event n e (cs ! n))"
  by (simp add: turn_def nth_enumerate_eq)

lemma react_calls:
  assumes "react kill e w = Some w'"
  shows "\<exists>cs. calls w' = calls w @ cs"
proof (cases e)
  case Destroy
  with assms obtain log where "destroy kill w = Some (w', log)" by auto
  from destroy_result(4) [OF this] show ?thesis by blast
qed (use assms in \<open>auto simp: on_connection_def on_close_def Let_def\<close>)

lemma step_call:
  assumes "step kill e w = Some w'" and "n < length (calls w)"
  shows "calls w' ! n = settle (call_event n e (calls w ! n)) \<and> n < length (calls w')"
proof -
  from assms(1) obtain w1 where r: "react kill e w = Some w1"
    and w': "w' = w1\<lparr>calls := turn e (calls w1)\<rparr>"
    by (auto simp: step_def split: option.splits)
  from react_calls [OF r] obtain cs where cs: "calls w1 = calls w @ cs" by blast
  with assms(2) have "n < length (calls w1)" "calls w1 ! n = calls w ! n"
    by (simp_all add: nth_append)
  with w' show ?thesis by (simp add: turn_nth)
qed

lemma run_call:
  "run kill evs w = Some w' \<Longrightarrow> n < length (calls w) \<Longrightarrow>
     calls w' ! n = call_run n evs (calls w ! n) \<and> n < length (calls w')"
proof (induction evs arbitrary: w)
  case Nil
  then show ?case by simp
next
  case (Cons e es)
  from Cons.prems(1) obtain w1 where s: "step kill e w = Some w1" and r: "run kill es w1 = Some w'"
    by (auto split: option.splits)
  from step_call [OF s Cons.prems(2)] Cons.IH [OF r] show ?case by simp
qed

lemma run_append:
  "run kill (xs @ ys) w = Some w' \<longleftrightarrow> (\<exists>w1. run kill xs w = Some w1 \<and> run kill ys w1 = Some w')"
  by (induction xs arbitrary: w) (auto split: option.splits)

lemma step_Destroy_call:
  assumes "step kill Destroy w = Some w1"
  shows "\<exists>log c. destroy kill w = Some (w1\<lparr>calls := calls w @ [c]\<rparr>, log) \<and>
           length (calls w1) = Suc (length (calls w)) \<and>
           calls w1 ! length (calls w) = settle c \<and>
           promise c = Pending \<and> stage c = Waiting \<and>
           map fst (closePromises c) = concat (map (rev \<circ> snd) (connectionDict w))"
proof -
  from assms obtain w0 log where d: "destroy kill w = Some (w0, log)"
    and w1: "w1 = w0\<lparr>calls := turn Destroy (calls w0)\<rparr>"
    by (auto simp: step_def split: option.splits)
  from destroy_result [OF d] obtain c where c: "calls w0 = calls w @ [c]"
    "promise c = Pending" "stage c = Waiting" "map fst (closePromises c) = log"
    "log = concat (map (rev \<circ> snd) (connectionDict w))" by blast
  have "w1\<lparr>calls := calls w @ [c]\<rparr> = w0" using w1 c(1) by simp
  moreover have "calls w1 ! length (calls w) = settle c"
    using w1 c(1) by (simp add: turn_nth)
  moreover have "length (calls w1) = Suc (length (calls w))" using w1 c(1) by simp
  ultimately show ?thesis using d c by auto
qed

lemma step_total: "e \<noteq> Destroy \<Longrightarrow> \<exists>w'. step kill e w = Some w'"
  by (cases e) (simp_all add: step_def)

lemma run_total: "Destroy \<notin> set evs \<Longrightarrow> \<exists>w'. run kill evs w = Some w'"
proof (induction evs arbitrary: w)
  case Nil
  then show ?case by simp
next
  case (Cons e es)
  then have "e \<noteq> Destroy" "Destroy \<notin> set es" by auto
  from step_total [OF this(1), of kill w] obtain w1 where "step kill e w = Some w1" ..
  with Cons.IH [OF \<open>Destroy \<notin> set es\<close>, of w1] show ?case by simp
qed

lemma step_Destroy_armed:
  assumes "step kill Destroy w = Some w1"
  shows "\<exists>c. length (calls w1) = Suc (length (calls w)) \<and>
           calls w1 ! length (calls w) = settle c \<and>
           promise c = Pending \<and> stage c = Waiting \<and>
           closePromises c = armed kill (socks w) (sweep_order (connectionDict w))"
proof -
  from step_Destroy_call [OF assms] obtain log c where
    c: "destroy kill w = Some (w1\<lparr>calls := calls w @ [c]\<rparr>, log)"
    "length (calls w1) = Suc (length (calls w))" "calls w1 ! length (calls w) = settle c"
    "promise c = Pending" "stage c = Waiting" by blast
  from destroy_effect(1,3) [OF c(1)]
  have "closePromises c = armed kill (socks w) (sweep_order (connectionDict w))" by simp
  with c(2-5) show ?thesis by blast
qed

text \<open>
  Claim C1, as stated, fails: the callback of \<open>server.close\<close> only rejects, and the
  promise resolves without it. With one connection, after \<open>destroy\<close>, the \<open>close\<close> of the
  connection and the deferred callback, the promise is resolved although the callback of
  \<open>server.close\<close> was never called.
\<close>

theorem resolves_without_server_callback:
  "promise_after node_destroy [Connection 1, Destroy, SockClose 1, Immediate 0]
     (makeDestroyable streams) 0 = Some Resolved \<and>
   \<not> callback_fired 0 [Connection 1, Destroy, SockClose 1, Immediate 0]"
  by (simp add: promise_after_def callback_fired_def world_defs)

text \<open>
  Claim C1, amended. Let \<open>destroy\<close> be called in state \<open>w\<close>, as invocation number
  \<open>length (calls w)\<close>; it visits the tracked sockets in the order \<open>sweep_order\<close>, and its
  connection promises are exactly \<open>armed\<close>: one per visit, resolved at once if and only if
  the socket reports closed (its \<open>closed\<close> property, or a destroyed socket on its parent
  chain) in the heap of that moment. If after further events the returned promise is
  resolved, then it was resolved by the deferred callback, in a turn of its own, and
  before that turn the promise was still pending and every visited socket had reported
  closed when its promise was made or had emitted \<open>close\<close> since.
\<close>

theorem resolve_waits_for_connections:
  assumes d: "step kill Destroy w = Some w1"
    and r: "run kill evs w1 = Some w2"
    and res: "promise (calls w2 ! length (calls w)) = Resolved"
  shows "\<exists>pre post wp. evs = pre @ Immediate (length (calls w)) # post \<and>
           run kill pre w1 = Some wp \<and>
           promise (calls wp ! length (calls w)) = Pending \<and>
           (\<forall>i < length (sweep_order (connectionDict w)).
              reports_closed
                (fold kill (take i (sweep_order (connectionDict w))) (socks w))
                (sweep_order (connectionDict w) ! i) \<or>
              SockClose (sweep_order (connectionDict w) ! i) \<in> set pre) \<and>
           closePromises (calls w1 ! length (calls w)) =
             armed kill (socks w) (sweep_order (connectionDict w)) \<and>
           (\<forall>(h, b) \<in> set (closePromises (calls w1 ! length (calls w))).
              b \<or> SockClose h \<in> set pre) \<and>
           set (sweep_order (connectionDict w)) = set (tracked (connectionDict w))"
proof -
  let ?n = "length (calls w)"
  let ?L = "sweep_order (connectionDict w)"
  from step_Destroy_armed [OF d] obtain c where c: "length (calls w1) = Suc ?n"
    "calls w1 ! ?n = settle c" "promise c = Pending" "stage c = Waiting"
    "closePromises c = armed kill (socks w) ?L" by blast
  from c(1) have n: "?n < length (calls w1)" by simp
  have ok: "call_ok (settle c)" using c(3,4) by (rule call_ok_fresh)
  have pend: "promise (settle c) \<noteq> Resolved" using c(3) by simp
  from run_call [OF r n] res c(2) have "promise (call_run ?n evs (settle c)) = Resolved" by simp
  from resolution_point [OF pend this] obtain pre post where
    split: "evs = pre @ Immediate ?n # post"
    and p: "promise (call_run ?n pre (settle c)) = Pending"
    and q: "stage (call_run ?n pre (settle c)) = Queued" by blast
  from r split obtain wp where wp: "run kill pre w1 = Some wp"
    by (auto simp: run_append)
  from run_call [OF wp n] c(2) have at: "calls wp ! ?n = call_run ?n pre (settle c)" by simp
  from call_ok_run [OF ok, of ?n pre] q
  have "list_all snd (closePromises (call_run ?n pre (settle c)))" by (simp add: call_ok_def)
  then have waits: "\<forall>(h, b) \<in> set (closePromises (settle c)). b \<or> SockClose h \<in> set pre"
    by (auto simp: call_run_promises list_all_iff)
  have flags: "reports_closed (fold kill (take i ?L) (socks w)) (?L ! i) \<or>
      SockClose (?L ! i) \<in> set pre" if "i < length ?L" for i
  proof -
    from that have "armed kill (socks w) ?L ! i \<in> set (armed kill (socks w) ?L)"
      by (simp add: armed_length)
    with armed_nth [OF that, of kill "socks w"] c(5)
    have "(?L ! i, reports_closed (fold kill (take i ?L) (socks w)) (?L ! i))
        \<in> set (closePromises (settle c))" by simp
    with waits show ?thesis by blast
  qed
  have cp: "closePromises (calls w1 ! ?n) = armed kill (socks w) ?L" using c(2,5) by simp
  from split wp p at waits c(2) flags cp set_sweep_order [of "connectionDict w"]
  show ?thesis by auto
qed

theorem resolve_waits_for_connections_witness:
  "step node_destroy Destroy one_open = Some one_closing \<and>
   run node_destroy [SockClose 1, Immediate 0] one_closing = Some one_closed \<and>
   promise (calls one_closed ! length (calls one_open)) = Resolved \<and>
   sweep_order (connectionDict one_open) = [1] \<and>
   \<not> reports_closed (fold node_destroy (take 0 [1]) (socks one_open)) 1 \<and>
   closePromises (calls one_closing ! length (calls one_open)) = [(1, False)] \<and>
   (\<exists>pre post wp. [SockClose 1, Immediate 0] = pre @ Immediate (length (calls one_open)) # post \<and>
      run node_destroy pre one_closing = Some wp \<and>
      promise (calls wp ! length (calls one_open)) = Pending \<and>
      (\<forall>i < length (sweep_order (connectionDict one_open)).
         reports_closed
           (fold node_destroy (take i (sweep_order (connectionDict one_open))) (socks one_open))
           (sweep_order (connectionDict one_open) ! i) \<or>
         SockClose (sweep_order (connectionDict one_open) ! i) \<in> set pre) \<and>
      SockClose 1 \<in> set pre \<and>
      closePromises (calls one_closing ! length (calls one_open)) =
        armed node_destroy (socks one_open) (sweep_order (connectionDict one_open)) \<and>
      (\<forall>(h, b) \<in> set (closePromises (calls one_closing ! length (calls one_open))).
         b \<or> SockClose h \<in> set pre) \<and>
      set (sweep_order (connectionDict one_open)) = set (tracked (connectionDict one_open)))"
proof -
  have h1: "step node_destroy Destroy one_open = Some one_closing"
    by (simp add: one_closing_def one_open_def world_defs)
  have h2: "run node_destroy [SockClose 1, Immediate 0] one_closing = Some one_closed"
    by (simp add: one_closed_def one_closing_def one_open_def world_defs)
  have h3: "promise (calls one_closed ! length (calls one_open)) = Resolved"
    by (simp add: one_closed_def one_closing_def one_open_def world_defs)
  have h4: "closePromises (calls one_closing ! length (calls one_open)) = [(1, False)]"
    by (simp add: one_closing_def one_open_def world_defs)
  have so: "sweep_order (connectionDict one_open) = [1]"
    by (simp add: sweep_order_def one_open_def world_defs)
  have s: "socks one_open = streams"
    by (simp add: one_open_def on_connection_def makeDestroyable_def Let_def)
  have oc: "on_chain streams 1 g \<Longrightarrow> g = 1" for g
    by (induction rule: on_chain.induct) (simp_all add: streams_def stream_sock_def)
  have nr: "\<not> reports_closed (fold node_destroy (take 0 [1]) (socks one_open)) 1"
    using oc by (auto simp: s reports_closed_def) (simp_all add: streams_def stream_sock_def)
  from resolve_waits_for_connections [OF h1 h2 h3] obtain pre post wp where
    c: "[SockClose 1, Immediate 0] = pre @ Immediate (length (calls one_open)) # post"
      "run node_destroy pre one_closing = Some wp"
      "promise (calls wp ! length (calls one_open)) = Pending"
      "\<forall>i < length (sweep_order (connectionDict one_open)).
         reports_closed
           (fold node_destroy (take i (sweep_order (connectionDict one_open))) (socks one_open))
           (sweep_order (connectionDict one_open) ! i) \<or>
         SockClose (sweep_order (connectionDict one_open) ! i) \<in> set pre"
      "closePromises (calls one_closing ! length (calls one_open)) =
        armed node_destroy (socks one_open) (sweep_order (connectionDict one_open))"
      "\<forall>(h, b) \<in> set (closePromises (calls one_closing ! length (calls one_open))).
         b \<or> SockClose h \<in> set pre"
      "set (sweep_order (connectionDict one_open)) = set (tracked (connectionDict one_open))"
    by blast
  from c(4) [rule_format, of 0] nr have "SockClose 1 \<in> set pre" by (simp add: so)
  with c h1 h2 h3 h4 so nr show ?thesis by blast
qed

text \<open>
  Claim C4, as stated, fails: a promise settles once. With one connection, after
  \<open>destroy\<close>, the \<open>close\<close> of the connection and the deferred callback, the promise is
  resolved, and an error reported by the callback of \<open>server.close\<close> after that does not
  reject it.
\<close>

theorem late_server_error_is_dropped:
  "promise_after node_destroy
     [Connection 1, Destroy, SockClose 1, Immediate 0, ServerClosed 0 (Some 7)]
     (makeDestroyable streams) 0 = Some Resolved"
  by (simp add: promise_after_def world_defs)

text \<open>
  Claim C4, amended. When the callback of \<open>server.close\<close> reports an error while the
  promise of that invocation is still pending, the promise is rejected with exactly that
  error, whatever the state of the connection promises, and stays so; a promise that is
  already settled is left as it is.
\<close>

theorem server_error_rejects_pending:
  assumes n: "n < length (calls w)"
  shows "\<exists>w1. step kill (ServerClosed n (Some e)) w = Some w1 \<and>
           (promise (calls w ! n) = Pending \<longrightarrow>
              promise (calls w1 ! n) = Rejected e \<and>
              (\<forall>evs w2. run kill evs w1 = Some w2 \<longrightarrow> promise (calls w2 ! n) = Rejected e)) \<and>
           (promise (calls w ! n) \<noteq> Pending \<longrightarrow> promise (calls w1 ! n) = promise (calls w ! n))"
proof -
  obtain w1 where s: "step kill (ServerClosed n (Some e)) w = Some w1"
    by (simp add: step_def)
  from step_call [OF s n] have at: "calls w1 ! n = settle (reject_promise e (calls w ! n))"
    and n1: "n < length (calls w1)" by simp_all
  have a: "promise (calls w1 ! n) = Rejected e" if "promise (calls w ! n) = Pending"
    using that at by (simp add: reject_promise_def)
  have b: "promise (calls w2 ! n) = Rejected e"
    if "promise (calls w ! n) = Pending" "run kill evs w1 = Some w2" for evs w2
    using run_call [OF that(2) n1] rejected_stays [OF a [OF that(1)]] by simp
  have c: "promise (calls w1 ! n) = promise (calls w ! n)" if "promise (calls w ! n) \<noteq> Pending"
    using that at by (simp add: reject_promise_def)
  from s a b c show ?thesis by blast
qed

theorem server_error_rejects_pending_witness:
  "0 < length (calls one_closing) \<and> promise (calls one_closing ! 0) = Pending \<and>
   (\<exists>w1. step node_destroy (ServerClosed 0 (Some 7)) one_closing = Some w1 \<and>
      promise (calls w1 ! 0) = Rejected 7 \<and>
      (\<exists>w2. run node_destroy [SockClose 1, Immediate 0] w1 = Some w2 \<and>
         promise (calls w2 ! 0) = Rejected 7)) \<and>
   0 < length (calls one_closed) \<and> promise (calls one_closed ! 0) \<noteq> Pending \<and>
   (\<exists>w1. step node_destroy (ServerClosed 0 (Some 7)) one_closed = Some w1 \<and>
      promise (calls w1 ! 0) = Resolved)"
proof -
  have g1: "0 < length (calls one_closed)"
    by (simp add: one_closed_def one_closing_def one_open_def world_defs)
  have g2: "promise (calls one_closed ! 0) = Resolved"
    by (simp add: one_closed_def one_closing_def one_open_def world_defs)
  from server_error_rejects_pending [OF g1, of node_destroy 7] g2
  have late: "\<exists>w1. step node_destroy (ServerClosed 0 (Some 7)) one_closed = Some w1 \<and>
      promise (calls w1 ! 0) = Resolved"
    by auto
  from g2 have g3: "promise (calls one_closed ! 0) \<noteq> Pending" by simp
  have h1: "0 < length (calls one_closing)"
    by (simp add: one_closing_def one_open_def world_defs)
  have h2: "promise (calls one_closing ! 0) = Pending"
    by (simp add: one_closing_def one_open_def world_defs)
  from server_error_rejects_pending [OF h1, of node_destroy 7] h2 obtain w1 where
    w1: "step node_destroy (ServerClosed 0 (Some 7)) one_closing = Some w1"
    "promise (calls w1 ! 0) = Rejected 7"
    "\<forall>evs w2. run node_destroy evs w1 = Some w2 \<longrightarrow> promise (calls w2 ! 0) = Rejected 7"
    by blast
  from run_total [of "[SockClose 1, Immediate 0]" node_destroy w1] obtain w2 where
    "run node_destroy [SockClose 1, Immediate 0] w1 = Some w2" by auto
  with w1 h1 h2 g1 g3 late show ?thesis by blast
qed

section \<open>Sockets that are already closed\<close>

lemma destroy_conns_closed:
  assumes keep: "keeps_closed kill h"
  shows "destroy_conns kill cs st = Some st' \<Longrightarrow> reports_closed (heap_of st) h \<Longrightarrow>
     (h, False) \<notin> set (waits st) \<Longrightarrow>
     reports_closed (heap_of st') h \<and> (h, False) \<notin> set (waits st')"
proof (induction cs arbitrary: st)
  case Nil
  then show ?case by simp
next
  case (Cons c cs)
  let ?st = "\<lambda>b. \<lparr>heap_of = kill c (heap_of st), waits = waits st @ [(c, b)],
        terminated = terminated st @ [c]\<rparr>"
  from Cons.prems(1) obtain b where b: "already_closed (heap_of st) c = Some b"
    and rest: "destroy_conns kill cs (?st b) = Some st'"
    by (auto split: option.splits)
  have "(c, b) \<noteq> (h, False)"
    using already_closed_reports [OF Cons.prems(2), of b] b by auto
  with Cons.prems(3) have w: "(h, False) \<notin> set (waits (?st b))" by simp
  from keep Cons.prems(2) have r: "reports_closed (heap_of (?st b)) h"
    by (simp add: keeps_closed_def)
  from Cons.IH [OF rest r w] show ?case .
qed

lemma destroy_keys_closed:
  assumes keep: "keeps_closed kill h"
  shows "destroy_keys kill d st = Some st' \<Longrightarrow> reports_closed (heap_of st) h \<Longrightarrow>
     (h, False) \<notin> set (waits st) \<Longrightarrow>
     reports_closed (heap_of st') h \<and> (h, False) \<notin> set (waits st')"
proof (induction d arbitrary: st)
  case Nil
  then show ?case by simp
next
  case (Cons p d)
  obtain k cs where p: "p = (k, cs)" by (cases p)
  from Cons.prems(1) p obtain st1 where st1: "destroy_conns kill (rev cs) st = Some st1"
    and rest: "destroy_keys kill d st1 = Some st'"
    by (auto split: option.splits)
  from destroy_conns_closed [OF keep st1 Cons.prems(2,3)]
  have "reports_closed (heap_of st1) h" "(h, False) \<notin> set (waits st1)" by simp_all
  from Cons.IH [OF rest this] show ?case .
qed

lemma destroy_closed:
  assumes keep: "keeps_closed kill h"
    and d: "destroy kill w = Some (w', log)"
    and r: "reports_closed (socks w) h"
  shows "(h, False) \<notin> set (closePromises (last (calls w')))"
proof -
  from d obtain st where st: "destroy_keys kill (connectionDict w)
      \<lparr>heap_of = socks w, waits = [], terminated = []\<rparr> = Some st"
    and w': "w' = w\<lparr>socks := heap_of st, calls := calls w @
        [\<lparr>promise = Pending, closePromises = waits st, stage = Waiting\<rparr>]\<rparr>"
    by (auto simp: destroy_def split: option.splits)
  from destroy_keys_closed [OF keep st] r have "(h, False) \<notin> set (waits st)" by simp
  with w' show ?thesis by simp
qed

text \<open>
  Claim C6. \<open>checkDestroyed\<close> returns true exactly when a socket on the parent chain of
  the handle, the handle included, is destroyed. And when a tracked socket reports closed
  as \<open>destroy\<close> starts (and destroying other sockets does not undo that), \<open>destroy\<close> pushes
  no waiting promise for it: once the other tracked sockets have closed, the deferral is
  queued whether or not this socket ever emits \<open>close\<close>.
\<close>

theorem closed_detection:
  "(checkDestroyed s h = Some True \<longleftrightarrow> (\<exists>g. on_chain s h g \<and> destroyed (s g))) \<and>
   (reports_closed (socks w) h \<and> keeps_closed kill h \<and>
    step kill Destroy w = Some w1 \<longrightarrow>
      (h, False) \<notin> set (closePromises (calls w1 ! length (calls w))) \<and>
      (\<forall>evs w2. run kill evs w1 = Some w2 \<and>
          (\<forall>g \<in> set (tracked (connectionDict w)). g \<noteq> h \<longrightarrow> SockClose g \<in> set evs) \<longrightarrow>
          stage (calls w2 ! length (calls w)) \<noteq> Waiting))"
proof (intro conjI impI)
  show "checkDestroyed s h = Some True \<longleftrightarrow> (\<exists>g. on_chain s h g \<and> destroyed (s g))"
    by (rule checkDestroyed_iff)
next
  let ?n = "length (calls w)"
  assume a: "reports_closed (socks w) h \<and> keeps_closed kill h \<and>
    step kill Destroy w = Some w1"
  then have r: "reports_closed (socks w) h"
    and keep: "keeps_closed kill h"
    and d: "step kill Destroy w = Some w1" by simp_all
  from step_Destroy_call [OF d] obtain log c where
    c: "destroy kill w = Some (w1\<lparr>calls := calls w @ [c]\<rparr>, log)"
    "length (calls w1) = Suc ?n" "calls w1 ! ?n = settle c"
    "map fst (closePromises c) = concat (map (rev \<circ> snd) (connectionDict w))" by blast
  from destroy_closed [OF keep c(1) r] have nf: "(h, False) \<notin> set (closePromises c)" by simp
  with c(3) show first: "(h, False) \<notin> set (closePromises (calls w1 ! ?n))" by simp
  show "\<forall>evs w2. run kill evs w1 = Some w2 \<and>
          (\<forall>g \<in> set (tracked (connectionDict w)). g \<noteq> h \<longrightarrow> SockClose g \<in> set evs) \<longrightarrow>
          stage (calls w2 ! ?n) \<noteq> Waiting"
  proof (intro allI impI)
    fix evs w2
    assume b: "run kill evs w1 = Some w2 \<and>
          (\<forall>g \<in> set (tracked (connectionDict w)). g \<noteq> h \<longrightarrow> SockClose g \<in> set evs)"
    from c(2) have n: "?n < length (calls w1)" by simp
    from run_call [OF _ n, of kill evs w2] b c(3)
    have at: "calls w2 ! ?n = call_run ?n evs (settle c)" by simp
    have "b \<or> SockClose g \<in> set evs" if "(g, b) \<in> set (closePromises c)" for g b
    proof (cases "g = h")
      case True
      with that nf show ?thesis by (cases b) auto
    next
      case False
      from that have "g \<in> set (map fst (closePromises c))" by force
      with c(4) have "g \<in> set (tracked (connectionDict w))" by (auto simp: tracked_def)
      with b False show ?thesis by simp
    qed
    then have "list_all snd (closePromises (call_run ?n evs (settle c)))"
      by (auto simp: call_run_promises list_all_iff)
    with settled_run [OF settled_settle, of ?n evs c] at show "stage (calls w2 ! ?n) \<noteq> Waiting"
      by (auto simp: settled_def)
  qed
qed

theorem closed_detection_witness:
  "checkDestroyed half_closed 2 = Some True \<and>
   (\<exists>g. on_chain half_closed 2 g \<and> destroyed (half_closed g)) \<and>
   \<not> destroyed (half_closed 2) \<and>
   reports_closed (socks wrapped_open) 2 \<and> keeps_closed node_destroy 2 \<and>
   step node_destroy Destroy wrapped_open = Some wrapped_closing \<and>
   closePromises (calls wrapped_closing ! length (calls wrapped_open)) = [(2, True)] \<and>
   (2, False) \<notin> set (closePromises (calls wrapped_closing ! length (calls wrapped_open))) \<and>
   run node_destroy [] wrapped_closing = Some wrapped_closing \<and>
   stage (calls wrapped_closing ! length (calls wrapped_open)) \<noteq> Waiting"
proof -
  have p: "parent (half_closed 2) = Some 1" "destroyed (half_closed 1)"
    "\<not> destroyed (half_closed 2)"
    by (simp_all add: half_closed_def layered_def streams_def stream_sock_def)
  have chain: "on_chain half_closed 2 1"
    using on_chain.up [of half_closed 2 1 1] on_chain.here [of half_closed 1] p(1) by simp
  with p(2) have ex: "\<exists>g. on_chain half_closed 2 g \<and> destroyed (half_closed g)" by blast
  have s: "socks wrapped_open = half_closed"
    by (simp add: wrapped_open_def on_connection_def makeDestroyable_def Let_def)
  from ex s have h1: "reports_closed (socks wrapped_open) 2" by (simp add: reports_closed_def)
  have h2: "keeps_closed node_destroy 2" by (rule keeps_closed_node_destroy)
  have h3: "step node_destroy Destroy wrapped_open = Some wrapped_closing"
    by (simp add: wrapped_closing_def wrapped_open_def half_closed_def layered_def world_defs)
  have v: "closePromises (calls wrapped_closing ! length (calls wrapped_open)) = [(2, True)]"
    by (simp add: wrapped_closing_def wrapped_open_def half_closed_def layered_def world_defs)
  have t: "tracked (connectionDict wrapped_open) = [2]"
    by (simp add: wrapped_open_def half_closed_def layered_def tracked_def world_defs)
  have h4: "run node_destroy [] wrapped_closing = Some wrapped_closing" by simp
  note cd = closed_detection [of half_closed 2 wrapped_open node_destroy wrapped_closing]
  from cd ex have a: "checkDestroyed half_closed 2 = Some True" by blast
  from cd h1 h2 h3
  have b: "(2, False) \<notin> set (closePromises (calls wrapped_closing ! length (calls wrapped_open)))"
    and c: "\<forall>evs w2. run node_destroy evs wrapped_closing = Some w2 \<and>
          (\<forall>g \<in> set (tracked (connectionDict wrapped_open)). g \<noteq> 2 \<longrightarrow> SockClose g \<in> set evs) \<longrightarrow>
          stage (calls w2 ! length (calls wrapped_open)) \<noteq> Waiting"
    by blast+
  have d: "stage (calls wrapped_closing ! length (calls wrapped_open)) \<noteq> Waiting"
    using c [rule_format, of "[]" wrapped_closing] t by simp
  from a ex p(3) h1 h2 h3 v b h4 d show ?thesis by blast
qed

section \<open>Connections that open and close\<close>

lemma occ_addConnection:
  "occ (addConnection k c d) k' g = occ d k' g + (if k' = k \<and> g = c then 1 else 0)"
  by (auto simp: occ_def conns_of_def addConnection_def update_conv' split: option.splits)

lemma occ_removeConnection:
  "occ (removeConnection k c d) k' g = (if k' = k \<and> g = c then occ d k c - 1 else occ d k' g)"
proof (cases "map_of d k")
  case None
  then show ?thesis by (simp add: removeConnection_def occ_def conns_of_def)
next
  case (Some cs)
  show ?thesis
  proof (cases "c \<in> set cs")
    case False
    with Some have "removeConnection k c d = d" by (simp add: removeConnection_absent conns_of_def)
    moreover from False Some have "occ d k c = 0" by (simp add: occ_def conns_of_def)
    ultimately show ?thesis by simp
  next
    case True
    from splice1_indexOf [OF True] obtain a b where
      ab: "cs = a @ c # b" "splice1 (indexOf cs c) cs = a @ b" by blast
    from indexOf_present [OF True] have idx: "0 \<le> indexOf cs c" by simp
    show ?thesis
    proof (cases "length cs = 1 \<and> indexOf cs c = 0")
      case single: True
      then have cs: "cs = [c]" using ab(1) by (cases a) auto
      from single Some have "removeConnection k c d = AList.delete k d"
        by (simp add: removeConnection_def)
      with Some cs show ?thesis by (auto simp: occ_def conns_of_def delete_conv')
    next
      case False
      from idx have "indexOf cs c \<noteq> - 1" by simp
      with False Some have "removeConnection k c d = AList.update k (a @ b) d"
        using ab(2) by (auto simp: removeConnection_def Let_def)
      with Some ab(1) show ?thesis by (auto simp: occ_def conns_of_def update_conv')
    qed
  qed
qed

lemma occ_emit_close:
  "occ (emit_close h hs d) k g =
     (if g = h then occ d k h - count_list hs (h, k) else occ d k g)"
proof (induction hs arbitrary: d)
  case Nil
  then show ?case by simp
next
  case (Cons p hs)
  obtain c k' where p: "p = (c, k')" by (cases p)
  show ?case by (simp add: p Cons.IH occ_removeConnection)
qed

lemma no_empty_emit_close: "no_empty d \<Longrightarrow> no_empty (emit_close h hs d)"
  by (induction hs arbitrary: d) (auto simp: no_empty_removeConnection)

lemma react_registry:
  assumes "react kill e w = Some w'"
  shows "connectionDict w' =
      (case e of
         Connection c \<Rightarrow> addConnection (conn_key (socks w c)) c (connectionDict w)
       | SecureConnection c \<Rightarrow> addConnection (conn_key (socks w c)) c (connectionDict w)
       | SockClose c \<Rightarrow> emit_close c (closeHandlers w) (connectionDict w)
       | _ \<Rightarrow> connectionDict w)"
    and "closeHandlers w' =
      (case e of
         Connection c \<Rightarrow> closeHandlers w @ [(c, conn_key (socks w c))]
       | SecureConnection c \<Rightarrow> closeHandlers w @ [(c, conn_key (socks w c))]
       | _ \<Rightarrow> closeHandlers w)"
proof -
  have "connectionDict w' = connectionDict w \<and> closeHandlers w' = closeHandlers w" if "e = Destroy"
  proof -
    from assms that obtain log where "destroy kill w = Some (w', log)" by auto
    from destroy_result(2,3) [OF this] show ?thesis by simp
  qed
  then show "connectionDict w' =
      (case e of
         Connection c \<Rightarrow> addConnection (conn_key (socks w c)) c (connectionDict w)
       | SecureConnection c \<Rightarrow> addConnection (conn_key (socks w c)) c (connectionDict w)
       | SockClose c \<Rightarrow> emit_close c (closeHandlers w) (connectionDict w)
       | _ \<Rightarrow> connectionDict w)"
    and "closeHandlers w' =
      (case e of
         Connection c \<Rightarrow> closeHandlers w @ [(c, conn_key (socks w c))]
       | SecureConnection c \<Rightarrow> closeHandlers w @ [(c, conn_key (socks w c))]
       | _ \<Rightarrow> closeHandlers w)"
    using assms by (cases e; auto simp: on_connection_def on_close_def Let_def)+
qed

lemma step_registry:
  assumes "step kill e w = Some w'"
  shows "connectionDict w' =
      (case e of
         Connection c \<Rightarrow> addConnection (conn_key (socks w c)) c (connectionDict w)
       | SecureConnection c \<Rightarrow> addConnection (conn_key (socks w c)) c (connectionDict w)
       | SockClose c \<Rightarrow> emit_close c (closeHandlers w) (connectionDict w)
       | _ \<Rightarrow> connectionDict w)"
    and "closeHandlers w' =
      (case e of
         Connection c \<Rightarrow> closeHandlers w @ [(c, conn_key (socks w c))]
       | SecureConnection c \<Rightarrow> closeHandlers w @ [(c, conn_key (socks w c))]
       | _ \<Rightarrow> closeHandlers w)"
proof -
  from assms obtain w1 where r: "react kill e w = Some w1"
    and w': "w' = w1\<lparr>calls := turn e (calls w1)\<rparr>"
    by (auto simp: step_def split: option.splits)
  from react_registry [OF r] w' show "connectionDict w' =
      (case e of
         Connection c \<Rightarrow> addConnection (conn_key (socks w c)) c (connectionDict w)
       | SecureConnection c \<Rightarrow> addConnection (conn_key (socks w c)) c (connectionDict w)
       | SockClose c \<Rightarrow> emit_close c (closeHandlers w) (connectionDict w)
       | _ \<Rightarrow> connectionDict w)"
    and "closeHandlers w' =
      (case e of
         Connection c \<Rightarrow> closeHandlers w @ [(c, conn_key (socks w c))]
       | SecureConnection c \<Rightarrow> closeHandlers w @ [(c, conn_key (socks w c))]
       | _ \<Rightarrow> closeHandlers w)"
    by simp_all
qed

lemma handlers_cover_step:
  assumes s: "step kill e w = Some w'" and inv: "handlers_cover w"
  shows "handlers_cover w'"
proof (cases e)
  case (Connection c)
  with step_registry [OF s] inv show ?thesis
    by (auto simp: handlers_cover_def occ_addConnection no_empty_addConnection)
next
  case (SecureConnection c)
  with step_registry [OF s] inv show ?thesis
    by (auto simp: handlers_cover_def occ_addConnection no_empty_addConnection)
next
  case (SockClose c)
  with step_registry [OF s] inv show ?thesis
    by (auto simp: handlers_cover_def occ_emit_close no_empty_emit_close)
qed (use step_registry [OF s] inv in \<open>auto simp: handlers_cover_def\<close>)

lemma handlers_cover_run:
  "run kill evs w = Some w' \<Longrightarrow> handlers_cover w \<Longrightarrow> handlers_cover w'"
proof (induction evs arbitrary: w)
  case Nil
  then show ?case by simp
next
  case (Cons e es)
  from Cons.prems(1) obtain w1 where s: "step kill e w = Some w1" and r: "run kill es w1 = Some w'"
    by (auto split: option.splits)
  from Cons.IH [OF r handlers_cover_step [OF s Cons.prems(2)]] show ?case .
qed

lemma occ_step_no_accept:
  assumes s: "step kill e w = Some w'" and "e \<noteq> Connection g" and "e \<noteq> SecureConnection g"
  shows "occ (connectionDict w') k g \<le> occ (connectionDict w) k g"
  using step_registry(1) [OF s] assms(2,3)
  by (cases e) (auto simp: occ_addConnection occ_emit_close)

lemma occ_run_no_accept:
  "run kill evs w = Some w' \<Longrightarrow> Connection g \<notin> set evs \<Longrightarrow> SecureConnection g \<notin> set evs \<Longrightarrow>
     occ (connectionDict w') k g \<le> occ (connectionDict w) k g"
proof (induction evs arbitrary: w)
  case Nil
  then show ?case by simp
next
  case (Cons e es)
  from Cons.prems(1) obtain w1 where s: "step kill e w = Some w1" and r: "run kill es w1 = Some w'"
    by (auto split: option.splits)
  from Cons.prems(2,3) have "e \<noteq> Connection g" "e \<noteq> SecureConnection g"
    "Connection g \<notin> set es" "SecureConnection g \<notin> set es" by auto
  from occ_step_no_accept [OF s this(1,2), of k] Cons.IH [OF r this(3,4)] show ?case by simp
qed

lemma closes_all_suffix: "closes_all (xs @ ys) \<Longrightarrow> closes_all ys"
  by (induction xs rule: closes_all.induct) auto

lemma closes_all_accept:
  "closes_all evs \<Longrightarrow> Connection g \<in> set evs \<or> SecureConnection g \<in> set evs \<Longrightarrow>
     SockClose g \<in> set evs"
  by (induction evs rule: closes_all.induct) auto

lemma occ_zero_empty:
  assumes "no_empty d" and "\<forall>k g. occ d k g = 0"
  shows "d = []"
proof (cases d)
  case Nil
  then show ?thesis .
next
  case (Cons p d')
  obtain k cs where p: "p = (k, cs)" by (cases p)
  with Cons assms(1) have "cs \<noteq> []" by (auto simp: no_empty_def)
  then obtain c cs' where "cs = c # cs'" by (cases cs) auto
  with Cons p have "occ d k c > 0" by (simp add: occ_def conns_of_def)
  with assms(2) show ?thesis by simp
qed

lemma all_closed_registry_empty:
  assumes r: "run kill evs (makeDestroyable s) = Some w" and c: "closes_all evs"
  shows "connectionDict w = []"
proof -
  let ?w0 = "makeDestroyable s"
  have init: "handlers_cover ?w0"
    by (simp add: handlers_cover_def makeDestroyable_def no_empty_def occ_def conns_of_def)
  have zero0: "occ (connectionDict ?w0) k g = 0" for k g
    by (simp add: makeDestroyable_def occ_def conns_of_def)
  have "occ (connectionDict w) k g = 0" for k g
  proof (cases "SockClose g \<in> set evs")
    case False
    with closes_all_accept [OF c, of g]
    have "Connection g \<notin> set evs" "SecureConnection g \<notin> set evs" by auto
    from occ_run_no_accept [OF r this, of k] zero0 show ?thesis by simp
  next
    case True
    from split_list_last [OF True] obtain pre post where
      sp: "evs = pre @ SockClose g # post" "SockClose g \<notin> set post" by blast
    from r sp(1) obtain w1 w2 where w1: "run kill pre ?w0 = Some w1"
      and w2: "step kill (SockClose g) w1 = Some w2" and w: "run kill post w2 = Some w"
      by (auto simp: run_append split: option.splits)
    from handlers_cover_run [OF w1 init]
    have "occ (connectionDict w1) k g \<le> count_list (closeHandlers w1) (g, k)"
      by (simp add: handlers_cover_def)
    with step_registry(1) [OF w2] have z: "occ (connectionDict w2) k g = 0"
      by (simp add: occ_emit_close)
    from c sp(1) have "closes_all post"
      using closes_all_suffix [of "pre @ [SockClose g]" post] by simp
    with closes_all_accept [of post g] sp(2)
    have "Connection g \<notin> set post" "SecureConnection g \<notin> set post" by auto
    from occ_run_no_accept [OF w this, of k] z show ?thesis by simp
  qed
  moreover from handlers_cover_run [OF r init] have "no_empty (connectionDict w)"
    by (simp add: handlers_cover_def)
  ultimately show ?thesis using occ_zero_empty by blast
qed

text \<open>
  Claim C3. Start from a fresh registry and take any sequence of events in which every
  connection event is followed by the \<open>close\<close> event of its socket. Whatever state the
  sequence leads to has an empty registry, and a sequence without \<open>destroy\<close> does lead to
  a state.
\<close>

theorem accept_close_symmetry:
  assumes "closes_all evs"
  shows "(\<forall>w. run kill evs (makeDestroyable s) = Some w \<longrightarrow> connectionDict w = []) \<and>
         (Destroy \<notin> set evs \<longrightarrow> (\<exists>w. run kill evs (makeDestroyable s) = Some w))"
  using all_closed_registry_empty [OF _ assms] run_total by blast

theorem accept_close_symmetry_witness:
  "closes_all [Connection 1, SecureConnection 2, SockClose 2, Connection 3, SockClose 1,
     SockClose 3] \<and>
   Destroy \<notin> set [Connection 1, SecureConnection 2, SockClose 2, Connection 3, SockClose 1,
     SockClose 3] \<and>
   map_option connectionDict (run node_destroy [Connection 1, SecureConnection 2] (makeDestroyable streams)) =
     Some [(''1.2.3.4:1234'', [1, 2])] \<and>
   (\<exists>w. run node_destroy [Connection 1, SecureConnection 2, SockClose 2, Connection 3,
           SockClose 1, SockClose 3] (makeDestroyable streams) = Some w \<and>
        connectionDict w = [])"
proof -
  let ?evs = "[Connection 1, SecureConnection 2, SockClose 2, Connection 3, SockClose 1,
     SockClose 3]"
  have h1: "closes_all ?evs" by simp
  have h2: "Destroy \<notin> set ?evs" by simp
  have v: "map_option connectionDict
      (run node_destroy [Connection 1, SecureConnection 2] (makeDestroyable streams)) =
     Some [(''1.2.3.4:1234'', [1, 2])]"
    by (simp add: world_defs)
  from accept_close_symmetry [OF h1, of node_destroy streams] h2
  have "\<exists>w. run node_destroy ?evs (makeDestroyable streams) = Some w \<and> connectionDict w = []"
    by blast
  with h1 h2 v show ?thesis by blast
qed

section \<open>The two variants\<close>






















end
